theory Spec2Isabelle
  imports Main "HOL-Library.Word" "HOL-Library.Monad_Syntax" "HOL-Library.Multiset"
begin

unbundle bit_operations_syntax

section \<open>The data model of hashmap.hpp\<close>

text \<open>
  \<^verbatim>\<open>struct HNode { HNode *next; uint64_t hcode; }\<close> is embedded in a record of the host.
  A node of the model is the address of that record and its hash code. The \<open>next\<close> field
  is not a field of the model: a slot of a table holds its chain, the list of the nodes
  reached from the slot head through \<open>next\<close>, head first. This reading of the links is
  the one the code maintains as long as the host never inserts a node that is still
  linked. Section \<open>The links in memory\<close> has the same code with the \<open>next\<close> fields
  themselves, and section \<open>The lists are the links\<close> shows that the runs of the two
  are the same under that condition.

  A slot array lives in the heap as the code's \<open>calloc\<close> and \<open>free\<close> leave it: \<open>tab\<close>
  is a pointer (\<open>None\<close> is \<open>nullptr\<close>), and the pointer survives the array being freed.

  The \<open>size_t\<close> fields \<open>mask\<close>, \<open>size\<close> and \<open>migrate_pos\<close> are natural numbers. They
  count slots and linked nodes, each of which occupies memory of a 64-bit address space,
  so \<open>size++\<close>, \<open>migrate_pos++\<close>, \<open>(mask + 1) * kMaxLoadFactor\<close> and \<open>(mask + 1) * 2\<close> are
  modelled without wrap-around; \<open>size--\<close> in \<open>detach\<close>, which the code does not guard, is
  modelled with it. The hash code is a 64-bit word, and \<open>hcode & mask\<close> is the bitwise
  and of its value with the mask.

  Every operation returns an option: \<open>None\<close> is a failed \<open>assert\<close> or an access through
  a null or dangling pointer or outside an array.
\<close>

definition kRehasingWork :: nat where
  "kRehasingWork = 128"

definition kMaxLoadFactor :: nat where
  "kMaxLoadFactor = 8"

record HNode =
  addr :: nat
  hcode :: "64 word"

type_synonym slots = "HNode list list"

record HTab =
  tab :: "nat option"
  mask_f :: nat
  size_f :: nat

record HMap =
  newer :: HTab
  older :: HTab
  migrate_pos :: nat

record Heap =
  cells :: "nat \<Rightarrow> slots option"
  brk :: nat

text \<open>The incoming pointer \<open>HNode **from\<close>: \<open>Link pos 0\<close> is \<open>&tab[pos]\<close>, and
  \<open>Link pos (Suc i)\<close> is the \<open>next\<close> field of the \<open>i\<close>-th node of the chain of slot \<open>pos\<close>.\<close>

datatype link = Link nat nat

text \<open>\<open>HTab{}\<close>, the value of a default-constructed table.\<close>

definition HTab_empty :: HTab where
  "HTab_empty = \<lparr>tab = None, mask_f = 0, size_f = 0\<rparr>"

definition HMap_empty :: HMap where
  "HMap_empty = \<lparr>newer = HTab_empty, older = HTab_empty, migrate_pos = 0\<rparr>"

definition heap_empty :: Heap where
  "heap_empty = \<lparr>cells = (\<lambda>_. None), brk = 0\<rparr>"

subsection \<open>The allocator\<close>

text \<open>\<open>calloc(n, sizeof(HNode *))\<close> returns an address that is not in use, of an array of
  \<open>n\<close> empty slots. Allocation failure is not modelled.\<close>

definition calloc :: "nat \<Rightarrow> Heap \<Rightarrow> nat \<times> Heap" where
  "calloc n h = (brk h, h\<lparr>cells := (cells h)(brk h \<mapsto> replicate n []), brk := Suc (brk h)\<rparr>)"

text \<open>\<open>free(p)\<close>: nothing for \<open>nullptr\<close>; freeing what is not allocated is undefined.\<close>

definition free :: "nat option \<Rightarrow> Heap \<Rightarrow> Heap option" where
  "free p h =
     (case p of
        None \<Rightarrow> Some h
      | Some a \<Rightarrow>
          (case cells h a of
             None \<Rightarrow> None
           | Some _ \<Rightarrow> Some (h\<lparr>cells := (cells h)(a := None)\<rparr>)))"

text \<open>The array \<open>this->tab\<close> points to, when the pointer can be dereferenced.\<close>

definition slots_of :: "HTab \<Rightarrow> Heap \<Rightarrow> slots option" where
  "slots_of t h = (case tab t of None \<Rightarrow> None | Some a \<Rightarrow> cells h a)"

text \<open>Reading \<open>this->tab[i]\<close> and writing \<open>this->tab[i] = chain\<close>.\<close>

definition read_slot :: "HTab \<Rightarrow> Heap \<Rightarrow> nat \<Rightarrow> HNode list option" where
  "read_slot t h i =
     (case slots_of t h of
        None \<Rightarrow> None
      | Some sl \<Rightarrow> if i < length sl then Some (sl ! i) else None)"

definition write_slot :: "HTab \<Rightarrow> Heap \<Rightarrow> nat \<Rightarrow> HNode list \<Rightarrow> Heap option" where
  "write_slot t h i c =
     (case tab t of
        None \<Rightarrow> None
      | Some a \<Rightarrow>
          (case cells h a of
             None \<Rightarrow> None
           | Some sl \<Rightarrow>
               if i < length sl then Some (h\<lparr>cells := (cells h)(a \<mapsto> sl[i := c])\<rparr>)
               else None))"

subsection \<open>HTab\<close>

definition HTab_init :: "nat \<Rightarrow> HTab \<Rightarrow> Heap \<Rightarrow> (HTab \<times> Heap) option" where
  "HTab_init n t h =
     (if 0 < n \<and> (n - 1) AND n = 0
      then (let (a, h') = calloc n h
            in Some (t\<lparr>tab := Some a, mask_f := n - 1, size_f := 0\<rparr>, h'))
      else None)"

definition get_position :: "HTab \<Rightarrow> 64 word \<Rightarrow> nat" where
  "get_position t hc = unat hc AND mask_f t"

definition HTab_insert :: "HNode \<Rightarrow> HTab \<Rightarrow> Heap \<Rightarrow> (HTab \<times> Heap) option" where
  "HTab_insert node t h =
     (let pos = get_position t (hcode node) in
      do {
        nxt \<leftarrow> read_slot t h pos;
        h' \<leftarrow> write_slot t h pos (node # nxt);
        Some (t\<lparr>size_f := size_f t + 1\<rparr>, h')
      })"

text \<open>The \<open>for\<close> loop of \<open>lookup\<close> over one chain: the depth of the first node with the
  key's hash code that \<open>eq\<close> accepts.\<close>

fun scan :: "HNode \<Rightarrow> (HNode \<Rightarrow> HNode \<Rightarrow> bool) \<Rightarrow> HNode list \<Rightarrow> nat \<Rightarrow> nat option" where
  "scan key eq [] i = None"
| "scan key eq (cur # rest) i =
     (if hcode cur = hcode key \<and> eq cur key then Some i else scan key eq rest (Suc i))"

definition HTab_lookup ::
  "HNode \<Rightarrow> (HNode \<Rightarrow> HNode \<Rightarrow> bool) \<Rightarrow> HTab \<Rightarrow> Heap \<Rightarrow> link option option" where
  "HTab_lookup key eq t h =
     (if tab t = None then Some None
      else (let pos = get_position t (hcode key) in
            do {
              chain \<leftarrow> read_slot t h pos;
              Some (map_option (Link pos) (scan key eq chain 0))
            }))"

text \<open>\<open>*from\<close>: the node an incoming pointer points at.\<close>

definition deref :: "link \<Rightarrow> HTab \<Rightarrow> Heap \<Rightarrow> HNode option" where
  "deref l t h =
     (case l of Link pos i \<Rightarrow>
        do {
          chain \<leftarrow> read_slot t h pos;
          if i < length chain then Some (chain ! i) else None
        })"

definition HTab_detach :: "link \<Rightarrow> HTab \<Rightarrow> Heap \<Rightarrow> (HNode \<times> HTab \<times> Heap) option" where
  "HTab_detach l t h =
     (case l of Link pos i \<Rightarrow>
        do {
          chain \<leftarrow> read_slot t h pos;
          node \<leftarrow> (if i < length chain then Some (chain ! i) else None);
          h' \<leftarrow> write_slot t h pos (take i chain @ drop (Suc i) chain);
          Some (node,
                t\<lparr>size_f := (if size_f t = 0 then 2 ^ 64 - 1 else size_f t - 1)\<rparr>,
                h')
        })"

text \<open>The visitor \<open>bool f(HNode *, void *arg)\<close> reads and writes what \<open>arg\<close> points to.\<close>

fun visit_chain :: "(HNode \<Rightarrow> 'c \<Rightarrow> bool \<times> 'c) \<Rightarrow> HNode list \<Rightarrow> 'c \<Rightarrow> bool \<times> 'c" where
  "visit_chain f [] c = (True, c)"
| "visit_chain f (node # rest) c =
     (case f node c of
        (True, c') \<Rightarrow> visit_chain f rest c'
      | (False, c') \<Rightarrow> (False, c'))"

function foreach_from ::
  "(HNode \<Rightarrow> 'c \<Rightarrow> bool \<times> 'c) \<Rightarrow> HTab \<Rightarrow> Heap \<Rightarrow> nat \<Rightarrow> 'c \<Rightarrow> (bool \<times> 'c) option" where
  "foreach_from f t h i c =
     (if mask_f t \<noteq> 0 \<and> i \<le> mask_f t
      then (case read_slot t h i of
              None \<Rightarrow> None
            | Some chain \<Rightarrow>
                (case visit_chain f chain c of
                   (True, c') \<Rightarrow> foreach_from f t h (Suc i) c'
                 | (False, c') \<Rightarrow> Some (False, c')))
      else Some (True, c))"
  by pat_completeness auto
termination
  by (relation "measure (\<lambda>(f, t, h, i, c). Suc (mask_f t) - i)") auto

declare foreach_from.simps [simp del]

definition HTab_foreach ::
  "(HNode \<Rightarrow> 'c \<Rightarrow> bool \<times> 'c) \<Rightarrow> 'c \<Rightarrow> HTab \<Rightarrow> Heap \<Rightarrow> (bool \<times> 'c) option" where
  "HTab_foreach f arg t h = foreach_from f t h 0 arg"

subsection \<open>HMap\<close>

text \<open>One turn of the \<open>while\<close> loop of \<open>help_rehashing\<close>, from the test of the slot on.\<close>

definition rehash_iter :: "nat \<Rightarrow> HMap \<Rightarrow> Heap \<Rightarrow> (nat \<times> HMap \<times> Heap) option" where
  "rehash_iter nwork m h =
     do {
       chain \<leftarrow> read_slot (older m) h (migrate_pos m);
       if chain = [] then Some (nwork, m\<lparr>migrate_pos := migrate_pos m + 1\<rparr>, h)
       else do {
         (node, o', h') \<leftarrow> HTab_detach (Link (migrate_pos m) 0) (older m) h;
         (n', h'') \<leftarrow> HTab_insert node (newer m) h';
         Some (nwork + 1, m\<lparr>newer := n', older := o'\<rparr>, h'')
       }
     }"

lemma rehash_iter_measure:
  assumes "rehash_iter nwork m h = Some (nwork', m', h')" and "nwork < kRehasingWork"
  shows "((nwork', m', h'), (nwork, m, h)) \<in>
           measures [\<lambda>(w, m, h). kRehasingWork - w,
                     \<lambda>(w, m, h). (case slots_of (older m) h of None \<Rightarrow> 0 | Some sl \<Rightarrow> length sl)
                                   - migrate_pos m]"
  using assms
  by (auto simp: rehash_iter_def read_slot_def bind_eq_Some_conv
           split: if_splits option.splits)

function rehash_loop :: "nat \<Rightarrow> HMap \<Rightarrow> Heap \<Rightarrow> (HMap \<times> Heap) option" where
  "rehash_loop nwork m h =
     (if nwork < kRehasingWork \<and> 0 < size_f (older m)
      then (case rehash_iter nwork m h of
              None \<Rightarrow> None
            | Some (nwork', m', h') \<Rightarrow> rehash_loop nwork' m' h')
      else Some (m, h))"
  by pat_completeness auto
termination
proof (relation "measures [\<lambda>(w, m, h). kRehasingWork - w,
                     \<lambda>(w, m, h). (case slots_of (older m) h of None \<Rightarrow> 0 | Some sl \<Rightarrow> length sl)
                                   - migrate_pos m]", goal_cases)
  case 1
  show ?case by simp
next
  case (2 nwork m h x2 x y xa ya)
  then show ?case
    using rehash_iter_measure [of nwork m h x xa ya] by simp
qed

declare rehash_loop.simps [simp del]

definition help_rehashing :: "HMap \<Rightarrow> Heap \<Rightarrow> (HMap \<times> Heap) option" where
  "help_rehashing m h =
     do {
       (m', h') \<leftarrow> rehash_loop 0 m h;
       if size_f (older m') = 0 \<and> tab (older m') \<noteq> None
       then do {
         h'' \<leftarrow> free (tab (older m')) h';
         Some (m'\<lparr>older := HTab_empty\<rparr>, h'')
       }
       else Some (m', h')
     }"

definition trigger_rehashing :: "HMap \<Rightarrow> Heap \<Rightarrow> (HMap \<times> Heap) option" where
  "trigger_rehashing m h =
     (if tab (older m) = None
      then (let m1 = m\<lparr>older := newer m\<rparr> in
            do {
              (n', h') \<leftarrow> HTab_init ((mask_f (newer m1) + 1) * 2) (newer m1) h;
              Some (m1\<lparr>newer := n', migrate_pos := 0\<rparr>, h')
            })
      else None)"

definition HMap_lookup ::
  "HNode \<Rightarrow> (HNode \<Rightarrow> HNode \<Rightarrow> bool) \<Rightarrow> HMap \<Rightarrow> Heap \<Rightarrow> (HNode option \<times> HMap \<times> Heap) option" where
  "HMap_lookup key eq m h =
     do {
       (m', h') \<leftarrow> help_rehashing m h;
       from_n \<leftarrow> HTab_lookup key eq (newer m') h';
       (case from_n of
          Some l \<Rightarrow> do { node \<leftarrow> deref l (newer m') h'; Some (Some node, m', h') }
        | None \<Rightarrow>
            do {
              from_o \<leftarrow> HTab_lookup key eq (older m') h';
              (case from_o of
                 Some l \<Rightarrow> do { node \<leftarrow> deref l (older m') h'; Some (Some node, m', h') }
               | None \<Rightarrow> Some (None, m', h'))
            })
     }"

definition HMap_insert :: "HNode \<Rightarrow> HMap \<Rightarrow> Heap \<Rightarrow> (HMap \<times> Heap) option" where
  "HMap_insert node m h =
     do {
       (n1, h1) \<leftarrow> (if tab (newer m) = None then HTab_init 4 (newer m) h
                    else Some (newer m, h));
       (n2, h2) \<leftarrow> HTab_insert node n1 h1;
       (m3, h3) \<leftarrow>
         (let m2 = m\<lparr>newer := n2\<rparr> in
          if tab (older m2) = None
          then (let threshold = (mask_f (newer m2) + 1) * kMaxLoadFactor in
                if threshold \<le> size_f (newer m2) then trigger_rehashing m2 h2
                else Some (m2, h2))
          else Some (m2, h2));
       help_rehashing m3 h3
     }"

definition hm_delete ::
  "HNode \<Rightarrow> (HNode \<Rightarrow> HNode \<Rightarrow> bool) \<Rightarrow> HMap \<Rightarrow> Heap \<Rightarrow> (HNode option \<times> HMap \<times> Heap) option" where
  "hm_delete key eq m h =
     do {
       (m', h') \<leftarrow> help_rehashing m h;
       from_n \<leftarrow> HTab_lookup key eq (newer m') h';
       (case from_n of
          Some l \<Rightarrow>
            do {
              (node, n', h'') \<leftarrow> HTab_detach l (newer m') h';
              Some (Some node, m'\<lparr>newer := n'\<rparr>, h'')
            }
        | None \<Rightarrow>
            do {
              from_o \<leftarrow> HTab_lookup key eq (older m') h';
              (case from_o of
                 Some l \<Rightarrow>
                   do {
                     (node, o', h'') \<leftarrow> HTab_detach l (older m') h';
                     Some (Some node, m'\<lparr>older := o'\<rparr>, h'')
                   }
               | None \<Rightarrow> Some (None, m', h'))
            })
     }"

definition HMap_clear :: "HMap \<Rightarrow> Heap \<Rightarrow> (HMap \<times> Heap) option" where
  "HMap_clear m h =
     do {
       h1 \<leftarrow> free (tab (newer m)) h;
       h2 \<leftarrow> free (tab (older m)) h1;
       Some (m, h2)
     }"

definition HMap_size :: "HMap \<Rightarrow> nat" where
  "HMap_size m = size_f (newer m) + size_f (older m)"

definition HMap_foreach ::
  "(HNode \<Rightarrow> 'c \<Rightarrow> bool \<times> 'c) \<Rightarrow> 'c \<Rightarrow> HMap \<Rightarrow> Heap \<Rightarrow> 'c option" where
  "HMap_foreach f arg m h =
     (case HTab_foreach f arg (newer m) h of
        None \<Rightarrow> None
      | Some (False, c) \<Rightarrow> Some c
      | Some (True, c) \<Rightarrow> map_option snd (HTab_foreach f c (older m) h))"

section \<open>Well-formed states\<close>

text \<open>The nodes linked in a table, slot by slot, each chain from its head.\<close>

definition nodes_of :: "HTab \<Rightarrow> Heap \<Rightarrow> HNode list" where
  "nodes_of t h = (case slots_of t h of None \<Rightarrow> [] | Some sl \<Rightarrow> concat sl)"

definition all_nodes :: "HMap \<Rightarrow> Heap \<Rightarrow> HNode list" where
  "all_nodes m h = nodes_of (newer m) h @ nodes_of (older m) h"

text \<open>The allocator has handed out the addresses below \<open>brk\<close> only.\<close>

definition heap_ok :: "Heap \<Rightarrow> bool" where
  "heap_ok h = (\<forall>a. brk h \<le> a \<longrightarrow> cells h a = None)"

text \<open>A live slot array of a table has \<open>mask + 1\<close> slots, a power of two that is at
  least 4, every node sits in the slot of its hash code, and \<open>size\<close> counts the nodes.\<close>

definition slots_ok :: "HTab \<Rightarrow> slots \<Rightarrow> bool" where
  "slots_ok t sl =
     ((\<exists>k. 2 \<le> k \<and> Suc (mask_f t) = 2 ^ k) \<and>
      length sl = Suc (mask_f t) \<and>
      size_f t = length (concat sl) \<and>
      (\<forall>i < length sl. \<forall>n \<in> set (sl ! i). get_position t (hcode n) = i))"

text \<open>A table is either \<open>HTab{}\<close>, or its pointer is to a live array.\<close>

definition tab_ok :: "HTab \<Rightarrow> Heap \<Rightarrow> bool" where
  "tab_ok t h =
     (case tab t of
        None \<Rightarrow> mask_f t = 0 \<and> size_f t = 0
      | Some a \<Rightarrow> (case cells h a of None \<Rightarrow> False | Some sl \<Rightarrow> slots_ok t sl))"

text \<open>The slots of the older table below the cursor are empty.\<close>

definition cursor_ok :: "HMap \<Rightarrow> Heap \<Rightarrow> bool" where
  "cursor_ok m h =
     (case slots_of (older m) h of
        None \<Rightarrow> True
      | Some sl \<Rightarrow> \<forall>i < length sl. i < migrate_pos m \<longrightarrow> sl ! i = [])"

definition hmap_inv :: "HMap \<Rightarrow> Heap \<Rightarrow> bool" where
  "hmap_inv m h =
     (heap_ok h \<and> tab_ok (newer m) h \<and> tab_ok (older m) h \<and>
      (tab (older m) \<noteq> None \<longrightarrow> tab (newer m) \<noteq> None \<and> tab (newer m) \<noteq> tab (older m)) \<and>
      distinct (map addr (all_nodes m h)) \<and>
      cursor_ok m h)"

text \<open>The states the map goes through, from \<open>HMap{}\<close>, by \<open>insert\<close>, \<open>lookup\<close> and
  \<open>hm_delete\<close> with any key and any \<open>eq\<close>. \<open>reachable L m h\<close> carries the history of
  the calls in \<open>L\<close>: the nodes that were inserted and not returned by a \<open>hm_delete\<close>
  since. The host inserts a node only while it is not linked in the map.\<close>

inductive reachable :: "HNode multiset \<Rightarrow> HMap \<Rightarrow> Heap \<Rightarrow> bool" where
  start: "heap_ok h \<Longrightarrow> reachable {#} HMap_empty h"
| insert: "reachable L m h \<Longrightarrow> addr node \<notin> addr ` set_mset L \<Longrightarrow>
           HMap_insert node m h = Some (m', h') \<Longrightarrow> reachable (add_mset node L) m' h'"
| lookup: "reachable L m h \<Longrightarrow> HMap_lookup key eq m h = Some (r, m', h') \<Longrightarrow>
           reachable L m' h'"
| delete_hit: "reachable L m h \<Longrightarrow> hm_delete key eq m h = Some (Some x, m', h') \<Longrightarrow>
           reachable (L - {#x#}) m' h'"
| delete_miss: "reachable L m h \<Longrightarrow> hm_delete key eq m h = Some (None, m', h') \<Longrightarrow>
           reachable L m' h'"

text \<open>A node matches a key as \<open>lookup\<close> tests it: the hash codes are equal and
  \<open>eq(node, key)\<close> holds.\<close>

definition matches :: "(HNode \<Rightarrow> HNode \<Rightarrow> bool) \<Rightarrow> HNode \<Rightarrow> HNode \<Rightarrow> bool" where
  "matches eq key n = (hcode n = hcode key \<and> eq n key)"

text \<open>\<open>moves k\<close>: between the two states, \<open>k\<close> nodes went from the older table to the
  newer one, and nothing else changed but the cursor, which went forward.\<close>

definition moves :: "nat \<Rightarrow> HMap \<Rightarrow> Heap \<Rightarrow> HMap \<Rightarrow> Heap \<Rightarrow> bool" where
  "moves k m h m' h' =
     (\<exists>M. size M = k \<and>
        mset (nodes_of (older m) h) = mset (nodes_of (older m') h') + M \<and>
        mset (nodes_of (newer m') h') = mset (nodes_of (newer m) h) + M \<and>
        tab (newer m') = tab (newer m) \<and> mask_f (newer m') = mask_f (newer m) \<and>
        tab (older m') = tab (older m) \<and> mask_f (older m') = mask_f (older m) \<and>
        size_f (newer m') = size_f (newer m) + k \<and>
        size_f (older m') + k = size_f (older m) \<and>
        migrate_pos m \<le> migrate_pos m' \<and>
        brk h' = brk h)"

text \<open>\<open>helped k\<close>: what \<open>help_rehashing\<close> does between two states. It moves \<open>k\<close> nodes from
  the older table to the newer one; when that leaves no node in the older table, its
  array is freed and the table is \<open>HTab{}\<close> again; otherwise the whole quota was spent
  and the older table keeps its array.\<close>

definition helped :: "nat \<Rightarrow> HMap \<Rightarrow> Heap \<Rightarrow> HMap \<Rightarrow> Heap \<Rightarrow> bool" where
  "helped k m h m' h' =
     ((\<exists>M. size M = k \<and>
         mset (nodes_of (older m) h) = mset (nodes_of (older m') h') + M \<and>
         mset (nodes_of (newer m') h') = mset (nodes_of (newer m) h) + M) \<and>
      tab (newer m') = tab (newer m) \<and> mask_f (newer m') = mask_f (newer m) \<and>
      size_f (newer m') = size_f (newer m) + k \<and>
      size_f (older m') + k = size_f (older m) \<and>
      brk h' = brk h \<and>
      (if size_f (older m) = k
       then older m' = HTab_empty \<and> (\<forall>a. tab (older m) = Some a \<longrightarrow> cells h' a = None)
       else k = kRehasingWork \<and> tab (older m') = tab (older m) \<and>
            mask_f (older m') = mask_f (older m) \<and> slots_of (older m') h' \<noteq> None))"

section \<open>Scenarios\<close>

text \<open>Distinct nodes, node \<open>i\<close> with hash code \<open>i\<close>, and a list of calls of \<open>insert\<close>.\<close>

definition node_of :: "nat \<Rightarrow> HNode" where
  "node_of i = \<lparr>addr = i, hcode = of_nat i\<rparr>"

fun insert_all :: "HNode list \<Rightarrow> HMap \<Rightarrow> Heap \<Rightarrow> (HMap \<times> Heap) option" where
  "insert_all [] m h = Some (m, h)"
| "insert_all (node # rest) m h =
     (case HMap_insert node m h of
        None \<Rightarrow> None
      | Some (m', h') \<Rightarrow> insert_all rest m' h')"

text \<open>Calls of \<open>lookup\<close> one after the other, with what each returned.\<close>

fun lookup_all ::
  "HNode list \<Rightarrow> (HNode \<Rightarrow> HNode \<Rightarrow> bool) \<Rightarrow> HMap \<Rightarrow> Heap \<Rightarrow>
     (HNode option list \<times> HMap \<times> Heap) option" where
  "lookup_all [] eq m h = Some ([], m, h)"
| "lookup_all (key # rest) eq m h =
     (case HMap_lookup key eq m h of
        None \<Rightarrow> None
      | Some (r, m', h') \<Rightarrow>
          (case lookup_all rest eq m' h' of
             None \<Rightarrow> None
           | Some (rs, m'', h'') \<Rightarrow> Some (r # rs, m'', h'')))"

text \<open>Scenario A: \<open>insert\<close> of the nodes with hash codes \<open>0 .. n - 1\<close> on \<open>HMap{}\<close>.\<close>

definition scenario_A :: "nat \<Rightarrow> (HMap \<times> Heap) option" where
  "scenario_A n = insert_all (map node_of [0..<n]) HMap_empty heap_empty"

text \<open>The host's \<open>eq\<close> of the scenarios: two nodes are the same key when they are the same
  record.\<close>

definition same_addr :: "HNode \<Rightarrow> HNode \<Rightarrow> bool" where
  "same_addr a b = (addr a = addr b)"

text \<open>A cycle in progress: the older table has capacity 4 and holds the \<open>n\<close> nodes
  \<open>late_node 0 .. late_node (n - 1)\<close> in the chain of slot 0, \<open>late_node 0\<close> at its head;
  the newer table has capacity 8 and is empty; the cursor is 0.\<close>

definition late_node :: "nat \<Rightarrow> HNode" where
  "late_node i = \<lparr>addr = i, hcode = of_nat (4 * i)\<rparr>"

definition mid_map :: "nat \<Rightarrow> HMap" where
  "mid_map n = \<lparr>newer = \<lparr>tab = Some 1, mask_f = 7, size_f = 0\<rparr>,
                older = \<lparr>tab = Some 0, mask_f = 3, size_f = n\<rparr>, migrate_pos = 0\<rparr>"

definition mid_heap :: "nat \<Rightarrow> Heap" where
  "mid_heap n = \<lparr>cells = (\<lambda>_. None)(0 \<mapsto> [map late_node [0..<n], [], [], []],
                                        1 \<mapsto> replicate 8 []),
                 brk = 2\<rparr>"

text \<open>The sizes of a map, without its nodes: for the newer and for the older table,
  whether the pointer is null, the mask and the count. \<open>insert_shape\<close> is \<open>insert\<close> on the
  sizes alone: first the table allocated at the first call, the count of the newer table
  and the start of a cycle (\<open>front_shape\<close>), then the migration step, which moves
  \<open>min(128, older.size)\<close> nodes (\<open>migrate_shape\<close>).\<close>

type_synonym shape = "bool \<times> nat \<times> nat \<times> bool \<times> nat \<times> nat"

definition shape :: "HMap \<Rightarrow> shape" where
  "shape m = (tab (newer m) = None, mask_f (newer m), size_f (newer m),
              tab (older m) = None, mask_f (older m), size_f (older m))"

definition front_shape :: "shape \<Rightarrow> shape" where
  "front_shape s =
     (case s of (nn, nm, ns, on, om, os) \<Rightarrow>
        let (nm1, ns1) = (if nn then (3, 0) else (nm, ns));
            ns2 = ns1 + 1
        in if on \<and> (nm1 + 1) * kMaxLoadFactor \<le> ns2
           then (False, (nm1 + 1) * 2 - 1, 0, False, nm1, ns2)
           else (False, nm1, ns2, on, om, os))"

definition migrate_shape :: "shape \<Rightarrow> shape" where
  "migrate_shape s =
     (case s of (nn, nm, ns, on, om, os) \<Rightarrow>
        let k = min kRehasingWork os
        in if os - k = 0 \<and> \<not> on
           then (nn, nm, ns + k, True, 0, 0)
           else (nn, nm, ns + k, on, om, os - k))"

definition insert_shape :: "shape \<Rightarrow> shape" where
  "insert_shape s = migrate_shape (front_shape s)"

text \<open>\<open>hm_delete\<close> of a node that is in the older table after the migration step, on the
  sizes alone; and the sizes that reachable states have.\<close>

definition delete_older_shape :: "shape \<Rightarrow> shape" where
  "delete_older_shape s =
     (case migrate_shape s of (nn, nm, ns, on, om, os) \<Rightarrow> (nn, nm, ns, on, om, os - 1))"

definition attainable :: "shape \<Rightarrow> bool" where
  "attainable s = (\<exists>L m h. reachable L m h \<and> shape m = s)"

text \<open>Scenario B: \<open>init(n)\<close> on a fresh table, then \<open>insert(a)\<close>, then \<open>insert(b)\<close>.\<close>

definition scenario_B :: "nat \<Rightarrow> HNode \<Rightarrow> HNode \<Rightarrow> (HTab \<times> Heap) option" where
  "scenario_B n a b =
     do {
       (t0, h0) \<leftarrow> HTab_init n HTab_empty heap_empty;
       (t1, h1) \<leftarrow> HTab_insert a t0 h0;
       HTab_insert b t1 h1
     }"

text \<open>The state after \<open>insert(node_of 1)\<close> on \<open>HMap{}\<close> with nothing else in the heap
  (lemma \<open>insert_one\<close>).\<close>

definition one_map :: HMap where
  "one_map = \<lparr>newer = \<lparr>tab = Some 0, mask_f = 3, size_f = 1\<rparr>, older = HTab_empty, migrate_pos = 0\<rparr>"

definition one_heap :: Heap where
  "one_heap = \<lparr>cells = (\<lambda>_. None)(0 \<mapsto> [[], [node_of 1], [], []]), brk = 1\<rparr>"

section \<open>The links in memory\<close>

text \<open>
  The chains of the tables above are lists, which is what the links are as long as no
  node is inserted while it is linked. This section is the same code with the \<open>next\<close>
  field of every node in memory, as \<open>insert\<close>, \<open>lookup\<close>, \<open>detach\<close> and \<open>foreach\<close> read and
  write it, so that it also has the runs in which the host inserts a node that is
  linked. A pointer to a node is the node (its address and its hash code, which the
  table never writes) or \<open>None\<close> for \<open>nullptr\<close>; a slot holds a pointer to a node, and
  \<open>nexts\<close> holds the \<open>next\<close> field of the record at each address. The records of the host
  are live for the whole run. The tables and the map are the records \<open>HTab\<close> and \<open>HMap\<close>
  above, \<open>size()\<close> is \<open>HMap_size\<close>, and every other function is named after the one above
  that it restates. Section \<open>The lists are the links\<close> shows that the two agree on every
  run in which no node is inserted while it is linked.
\<close>

record Mem =
  arrays :: "nat \<Rightarrow> HNode option list option"
  brk_m :: nat
  nexts :: "nat \<Rightarrow> HNode option"

text \<open>Nothing allocated, and \<open>next = nullptr\<close> in every record, as it is initialized.\<close>

definition mem_empty :: Mem where
  "mem_empty = \<lparr>arrays = (\<lambda>_. None), brk_m = 0, nexts = (\<lambda>_. None)\<rparr>"

text \<open>\<open>calloc\<close> and \<open>free\<close>, and \<open>this->tab[i]\<close> read and written.\<close>

definition calloc_ptr :: "nat \<Rightarrow> Mem \<Rightarrow> nat \<times> Mem" where
  "calloc_ptr n s =
     (brk_m s, s\<lparr>arrays := (arrays s)(brk_m s \<mapsto> replicate n None), brk_m := Suc (brk_m s)\<rparr>)"

definition free_ptr :: "nat option \<Rightarrow> Mem \<Rightarrow> Mem option" where
  "free_ptr p s =
     (case p of
        None \<Rightarrow> Some s
      | Some a \<Rightarrow>
          (case arrays s a of
             None \<Rightarrow> None
           | Some _ \<Rightarrow> Some (s\<lparr>arrays := (arrays s)(a := None)\<rparr>)))"

definition read_ptr :: "HTab \<Rightarrow> Mem \<Rightarrow> nat \<Rightarrow> HNode option option" where
  "read_ptr t s i =
     (case tab t of
        None \<Rightarrow> None
      | Some a \<Rightarrow>
          (case arrays s a of
             None \<Rightarrow> None
           | Some sl \<Rightarrow> if i < length sl then Some (sl ! i) else None))"

definition write_ptr :: "HTab \<Rightarrow> Mem \<Rightarrow> nat \<Rightarrow> HNode option \<Rightarrow> Mem option" where
  "write_ptr t s i p =
     (case tab t of
        None \<Rightarrow> None
      | Some a \<Rightarrow>
          (case arrays s a of
             None \<Rightarrow> None
           | Some sl \<Rightarrow>
               if i < length sl then Some (s\<lparr>arrays := (arrays s)(a \<mapsto> sl[i := p])\<rparr>)
               else None))"

subsection \<open>HTab, on the links\<close>

definition HTab_init_ptr :: "nat \<Rightarrow> HTab \<Rightarrow> Mem \<Rightarrow> (HTab \<times> Mem) option" where
  "HTab_init_ptr n t s =
     (if 0 < n \<and> (n - 1) AND n = 0
      then (let (a, s') = calloc_ptr n s
            in Some (t\<lparr>tab := Some a, mask_f := n - 1, size_f := 0\<rparr>, s'))
      else None)"

text \<open>\<open>insert\<close>: \<open>next = tab[pos]; node->next = next; tab[pos] = node; size++\<close>.\<close>

definition HTab_insert_ptr :: "HNode \<Rightarrow> HTab \<Rightarrow> Mem \<Rightarrow> (HTab \<times> Mem) option" where
  "HTab_insert_ptr node t s =
     (let pos = get_position t (hcode node) in
      do {
        nxt \<leftarrow> read_ptr t s pos;
        s' \<leftarrow> write_ptr t (s\<lparr>nexts := (nexts s)(addr node := nxt)\<rparr>) pos (Some node);
        Some (t\<lparr>size_f := size_f t + 1\<rparr>, s')
      })"

text \<open>The incoming pointer \<open>HNode **from\<close>: \<open>Slot i\<close> is \<open>&this->tab[i]\<close>, and \<open>Next_of a\<close> is
  the \<open>next\<close> field of the record at address \<open>a\<close>. \<open>deref_ptr\<close> is \<open>*from\<close>.\<close>

datatype incoming = Slot nat | Next_of nat

definition deref_ptr :: "incoming \<Rightarrow> HTab \<Rightarrow> Mem \<Rightarrow> HNode option option" where
  "deref_ptr l t s = (case l of Slot i \<Rightarrow> read_ptr t s i | Next_of a \<Rightarrow> Some (nexts s a))"

text \<open>The loop of \<open>lookup\<close>,
  \<open>for (HNode *cur; (cur = *from) != nullptr; from = &cur->next)\<close>, at the incoming
  pointer \<open>l\<close> with \<open>p = *l\<close>. Nothing bounds the number of its turns: \<open>None\<close> is a loop
  that does not end. In \<open>lookup\<close> below, \<open>None\<close> is that, or a read outside a live array.\<close>

partial_function (option) scan_links ::
  "HNode \<Rightarrow> (HNode \<Rightarrow> HNode \<Rightarrow> bool) \<Rightarrow> (nat \<Rightarrow> HNode option) \<Rightarrow> incoming \<Rightarrow> HNode option \<Rightarrow>
     incoming option option" where
  "scan_links key eq nx l p =
     (case p of
        None \<Rightarrow> Some None
      | Some cur \<Rightarrow>
          if hcode cur = hcode key \<and> eq cur key then Some (Some l)
          else scan_links key eq nx (Next_of (addr cur)) (nx (addr cur)))"

declare scan_links.simps [code]

definition HTab_lookup_ptr ::
  "HNode \<Rightarrow> (HNode \<Rightarrow> HNode \<Rightarrow> bool) \<Rightarrow> HTab \<Rightarrow> Mem \<Rightarrow> incoming option option" where
  "HTab_lookup_ptr key eq t s =
     (if tab t = None then Some None
      else (let pos = get_position t (hcode key) in
            do {
              p \<leftarrow> read_ptr t s pos;
              scan_links key eq (nexts s) (Slot pos) p
            }))"

text \<open>\<open>detach\<close>: \<open>node = *from; *from = node->next; size--; return node\<close>.\<close>

definition HTab_detach_ptr :: "incoming \<Rightarrow> HTab \<Rightarrow> Mem \<Rightarrow> (HNode \<times> HTab \<times> Mem) option" where
  "HTab_detach_ptr l t s =
     do {
       p \<leftarrow> deref_ptr l t s;
       node \<leftarrow> p;
       s' \<leftarrow> (case l of
                Slot i \<Rightarrow> write_ptr t s i (nexts s (addr node))
              | Next_of a \<Rightarrow> Some (s\<lparr>nexts := (nexts s)(a := nexts s (addr node))\<rparr>));
       Some (node,
             t\<lparr>size_f := (if size_f t = 0 then 2 ^ 64 - 1 else size_f t - 1)\<rparr>,
             s')
     }"

text \<open>The inner loop of \<open>foreach\<close>,
  \<open>for (node = tab[i]; node != nullptr; node = node->next) if (!f(node, arg)) return false\<close>,
  from the pointer \<open>p\<close>. Nothing bounds the number of its turns either: \<open>None\<close> is a loop
  that does not end. In \<open>foreach\<close> below, \<open>None\<close> is that, or a read outside a live array.\<close>

partial_function (option) visit_links ::
  "(HNode \<Rightarrow> 'c \<Rightarrow> bool \<times> 'c) \<Rightarrow> (nat \<Rightarrow> HNode option) \<Rightarrow> HNode option \<Rightarrow> 'c \<Rightarrow> (bool \<times> 'c) option"
  where
  "visit_links f nx p c =
     (case p of
        None \<Rightarrow> Some (True, c)
      | Some node \<Rightarrow>
          (let (go, c') = f node c
           in if go then visit_links f nx (nx (addr node)) c' else Some (False, c')))"

declare visit_links.simps [code]

function foreach_from_ptr ::
  "(HNode \<Rightarrow> 'c \<Rightarrow> bool \<times> 'c) \<Rightarrow> HTab \<Rightarrow> Mem \<Rightarrow> nat \<Rightarrow> 'c \<Rightarrow> (bool \<times> 'c) option" where
  "foreach_from_ptr f t s i c =
     (if mask_f t \<noteq> 0 \<and> i \<le> mask_f t
      then (case read_ptr t s i of
              None \<Rightarrow> None
            | Some p \<Rightarrow>
                (case visit_links f (nexts s) p c of
                   None \<Rightarrow> None
                 | Some (True, c') \<Rightarrow> foreach_from_ptr f t s (Suc i) c'
                 | Some (False, c') \<Rightarrow> Some (False, c')))
      else Some (True, c))"
  by pat_completeness auto
termination
  by (relation "measure (\<lambda>(f, t, s, i, c). Suc (mask_f t) - i)") auto

declare foreach_from_ptr.simps [simp del]

definition HTab_foreach_ptr ::
  "(HNode \<Rightarrow> 'c \<Rightarrow> bool \<times> 'c) \<Rightarrow> 'c \<Rightarrow> HTab \<Rightarrow> Mem \<Rightarrow> (bool \<times> 'c) option" where
  "HTab_foreach_ptr f arg t s = foreach_from_ptr f t s 0 arg"

subsection \<open>HMap, on the links\<close>

definition rehash_iter_ptr :: "nat \<Rightarrow> HMap \<Rightarrow> Mem \<Rightarrow> (nat \<times> HMap \<times> Mem) option" where
  "rehash_iter_ptr nwork m s =
     do {
       p \<leftarrow> read_ptr (older m) s (migrate_pos m);
       if p = None then Some (nwork, m\<lparr>migrate_pos := migrate_pos m + 1\<rparr>, s)
       else do {
         (node, o', s') \<leftarrow> HTab_detach_ptr (Slot (migrate_pos m)) (older m) s;
         (n', s'') \<leftarrow> HTab_insert_ptr node (newer m) s';
         Some (nwork + 1, m\<lparr>newer := n', older := o'\<rparr>, s'')
       }
     }"

lemma rehash_iter_ptr_measure:
  assumes "rehash_iter_ptr nwork m s = Some (nwork', m', s')" and "nwork < kRehasingWork"
  shows "((nwork', m', s'), (nwork, m, s)) \<in>
           measures [\<lambda>(w, m, s). kRehasingWork - w,
                     \<lambda>(w, m, s). (case tab (older m) of
                                     None \<Rightarrow> 0
                                   | Some a \<Rightarrow> (case arrays s a of None \<Rightarrow> 0 | Some sl \<Rightarrow> length sl))
                                   - migrate_pos m]"
  using assms
  by (auto simp: rehash_iter_ptr_def read_ptr_def bind_eq_Some_conv
           split: if_splits option.splits)

function rehash_loop_ptr :: "nat \<Rightarrow> HMap \<Rightarrow> Mem \<Rightarrow> (HMap \<times> Mem) option" where
  "rehash_loop_ptr nwork m s =
     (if nwork < kRehasingWork \<and> 0 < size_f (older m)
      then (case rehash_iter_ptr nwork m s of
              None \<Rightarrow> None
            | Some (nwork', m', s') \<Rightarrow> rehash_loop_ptr nwork' m' s')
      else Some (m, s))"
  by pat_completeness auto
termination
proof (relation "measures [\<lambda>(w, m, s). kRehasingWork - w,
                     \<lambda>(w, m, s). (case tab (older m) of
                                     None \<Rightarrow> 0
                                   | Some a \<Rightarrow> (case arrays s a of None \<Rightarrow> 0 | Some sl \<Rightarrow> length sl))
                                   - migrate_pos m]", goal_cases)
  case 1
  show ?case by simp
next
  case (2 nwork m s x2 x y xa ya)
  then show ?case
    using rehash_iter_ptr_measure [of nwork m s x xa ya] by simp
qed

declare rehash_loop_ptr.simps [simp del]

definition help_rehashing_ptr :: "HMap \<Rightarrow> Mem \<Rightarrow> (HMap \<times> Mem) option" where
  "help_rehashing_ptr m s =
     do {
       (m', s') \<leftarrow> rehash_loop_ptr 0 m s;
       if size_f (older m') = 0 \<and> tab (older m') \<noteq> None
       then do {
         s'' \<leftarrow> free_ptr (tab (older m')) s';
         Some (m'\<lparr>older := HTab_empty\<rparr>, s'')
       }
       else Some (m', s')
     }"

definition trigger_rehashing_ptr :: "HMap \<Rightarrow> Mem \<Rightarrow> (HMap \<times> Mem) option" where
  "trigger_rehashing_ptr m s =
     (if tab (older m) = None
      then (let m1 = m\<lparr>older := newer m\<rparr> in
            do {
              (n', s') \<leftarrow> HTab_init_ptr ((mask_f (newer m1) + 1) * 2) (newer m1) s;
              Some (m1\<lparr>newer := n', migrate_pos := 0\<rparr>, s')
            })
      else None)"

text \<open>\<open>lookup\<close> returns \<open>from ? *from : nullptr\<close>.\<close>

definition HMap_lookup_ptr ::
  "HNode \<Rightarrow> (HNode \<Rightarrow> HNode \<Rightarrow> bool) \<Rightarrow> HMap \<Rightarrow> Mem \<Rightarrow> (HNode option \<times> HMap \<times> Mem) option" where
  "HMap_lookup_ptr key eq m s =
     do {
       (m', s') \<leftarrow> help_rehashing_ptr m s;
       from_n \<leftarrow> HTab_lookup_ptr key eq (newer m') s';
       (case from_n of
          Some l \<Rightarrow> do { p \<leftarrow> deref_ptr l (newer m') s'; Some (p, m', s') }
        | None \<Rightarrow>
            do {
              from_o \<leftarrow> HTab_lookup_ptr key eq (older m') s';
              (case from_o of
                 Some l \<Rightarrow> do { p \<leftarrow> deref_ptr l (older m') s'; Some (p, m', s') }
               | None \<Rightarrow> Some (None, m', s'))
            })
     }"

definition HMap_insert_ptr :: "HNode \<Rightarrow> HMap \<Rightarrow> Mem \<Rightarrow> (HMap \<times> Mem) option" where
  "HMap_insert_ptr node m s =
     do {
       (n1, s1) \<leftarrow> (if tab (newer m) = None then HTab_init_ptr 4 (newer m) s
                    else Some (newer m, s));
       (n2, s2) \<leftarrow> HTab_insert_ptr node n1 s1;
       (m3, s3) \<leftarrow>
         (let m2 = m\<lparr>newer := n2\<rparr> in
          if tab (older m2) = None
          then (let threshold = (mask_f (newer m2) + 1) * kMaxLoadFactor in
                if threshold \<le> size_f (newer m2) then trigger_rehashing_ptr m2 s2
                else Some (m2, s2))
          else Some (m2, s2));
       help_rehashing_ptr m3 s3
     }"

definition hm_delete_ptr ::
  "HNode \<Rightarrow> (HNode \<Rightarrow> HNode \<Rightarrow> bool) \<Rightarrow> HMap \<Rightarrow> Mem \<Rightarrow> (HNode option \<times> HMap \<times> Mem) option" where
  "hm_delete_ptr key eq m s =
     do {
       (m', s') \<leftarrow> help_rehashing_ptr m s;
       from_n \<leftarrow> HTab_lookup_ptr key eq (newer m') s';
       (case from_n of
          Some l \<Rightarrow>
            do {
              (node, n', s'') \<leftarrow> HTab_detach_ptr l (newer m') s';
              Some (Some node, m'\<lparr>newer := n'\<rparr>, s'')
            }
        | None \<Rightarrow>
            do {
              from_o \<leftarrow> HTab_lookup_ptr key eq (older m') s';
              (case from_o of
                 Some l \<Rightarrow>
                   do {
                     (node, o', s'') \<leftarrow> HTab_detach_ptr l (older m') s';
                     Some (Some node, m'\<lparr>older := o'\<rparr>, s'')
                   }
               | None \<Rightarrow> Some (None, m', s'))
            })
     }"

definition HMap_foreach_ptr ::
  "(HNode \<Rightarrow> 'c \<Rightarrow> bool \<times> 'c) \<Rightarrow> 'c \<Rightarrow> HMap \<Rightarrow> Mem \<Rightarrow> 'c option" where
  "HMap_foreach_ptr f arg m s =
     (case HTab_foreach_ptr f arg (newer m) s of
        None \<Rightarrow> None
      | Some (False, c) \<Rightarrow> Some c
      | Some (True, c) \<Rightarrow> map_option snd (HTab_foreach_ptr f c (older m) s))"

subsection \<open>Runs on the links\<close>

text \<open>The allocator has handed out the addresses below \<open>brk_m\<close> only.\<close>

definition mem_ok :: "Mem \<Rightarrow> bool" where
  "mem_ok s = (\<forall>a. brk_m s \<le> a \<longrightarrow> arrays s a = None)"

text \<open>The states the map goes through, from \<open>HMap{}\<close>, by \<open>insert\<close>, \<open>lookup\<close> and
  \<open>hm_delete\<close> with any key and any \<open>eq\<close>, when the host inserts a node only while it is
  not linked in the map. \<open>L\<close> is the history of the calls, as in \<open>reachable\<close>: the nodes
  that were inserted and not returned by a \<open>hm_delete\<close> since.\<close>

inductive reachable_ptr :: "HNode multiset \<Rightarrow> HMap \<Rightarrow> Mem \<Rightarrow> bool" where
  start: "mem_ok s \<Longrightarrow> reachable_ptr {#} HMap_empty s"
| insert: "reachable_ptr L m s \<Longrightarrow> addr node \<notin> addr ` set_mset L \<Longrightarrow>
           HMap_insert_ptr node m s = Some (m', s') \<Longrightarrow> reachable_ptr (add_mset node L) m' s'"
| lookup: "reachable_ptr L m s \<Longrightarrow> HMap_lookup_ptr key eq m s = Some (r, m', s') \<Longrightarrow>
           reachable_ptr L m' s'"
| delete_hit: "reachable_ptr L m s \<Longrightarrow> hm_delete_ptr key eq m s = Some (Some x, m', s') \<Longrightarrow>
           reachable_ptr (L - {#x#}) m' s'"
| delete_miss: "reachable_ptr L m s \<Longrightarrow> hm_delete_ptr key eq m s = Some (None, m', s') \<Longrightarrow>
           reachable_ptr L m' s'"

text \<open>A list of calls of \<open>insert\<close>, scenario A, and \<open>insert(node)\<close> followed by
  \<open>insert(node)\<close> of the same record, on \<open>HMap{}\<close>. \<open>twice_map\<close> and \<open>twice_mem\<close> are the state
  the last one leaves for \<open>node_of 1\<close> (lemma \<open>insert_twice_state\<close>): the node is the head
  of slot 1 and its own successor, and the count is 2.\<close>

fun insert_all_ptr :: "HNode list \<Rightarrow> HMap \<Rightarrow> Mem \<Rightarrow> (HMap \<times> Mem) option" where
  "insert_all_ptr [] m s = Some (m, s)"
| "insert_all_ptr (node # rest) m s =
     (case HMap_insert_ptr node m s of
        None \<Rightarrow> None
      | Some (m', s') \<Rightarrow> insert_all_ptr rest m' s')"

definition scenario_A_ptr :: "nat \<Rightarrow> (HMap \<times> Mem) option" where
  "scenario_A_ptr n = insert_all_ptr (map node_of [0..<n]) HMap_empty mem_empty"

definition insert_twice :: "HNode \<Rightarrow> (HMap \<times> Mem) option" where
  "insert_twice node =
     do {
       (m, s) \<leftarrow> HMap_insert_ptr node HMap_empty mem_empty;
       HMap_insert_ptr node m s
     }"

definition twice_map :: HMap where
  "twice_map = \<lparr>newer = \<lparr>tab = Some 0, mask_f = 3, size_f = 2\<rparr>, older = HTab_empty, migrate_pos = 0\<rparr>"

definition twice_mem :: Mem where
  "twice_mem = \<lparr>arrays = (\<lambda>_. None)(0 \<mapsto> [None, Some (node_of 1), None, None]), brk_m = 1,
                 nexts = (\<lambda>_. None)(1 := Some (node_of 1))\<rparr>"

subsection \<open>The lists of the links\<close>

text \<open>The chain of a slot is a list when following \<open>next\<close> from the pointer \<open>p\<close> goes
  through the nodes of the list, in order, and then reaches \<open>nullptr\<close>.\<close>

fun is_chain :: "(nat \<Rightarrow> HNode option) \<Rightarrow> HNode option \<Rightarrow> HNode list \<Rightarrow> bool" where
  "is_chain nx p [] = (p = None)"
| "is_chain nx p (n # rest) = (p = Some n \<and> is_chain nx (nx (addr n)) rest)"

text \<open>The incoming pointer of the node at depth \<open>j\<close> of the chain \<open>xs\<close> whose head is \<open>*l\<close>:
  what \<open>Link pos j\<close> is, for \<open>l = Slot pos\<close>.\<close>

fun incoming_of :: "incoming \<Rightarrow> HNode list \<Rightarrow> nat \<Rightarrow> incoming" where
  "incoming_of l xs 0 = l"
| "incoming_of l xs (Suc j) = Next_of (addr (xs ! j))"

text \<open>A heap of lists describes a memory of links, for a table and for a map: the array
  of the table is allocated in both, and the chain of every slot is the list of that
  slot. Nothing is asked of the \<open>next\<close> field of a node that is not linked.\<close>

definition chains_of :: "HTab \<Rightarrow> Mem \<Rightarrow> Heap \<Rightarrow> bool" where
  "chains_of t s h =
     (case tab t of
        None \<Rightarrow> True
      | Some a \<Rightarrow>
          (case cells h a of
             None \<Rightarrow> True
           | Some sl \<Rightarrow>
               (case arrays s a of
                  None \<Rightarrow> False
                | Some ps \<Rightarrow> list_all2 (is_chain (nexts s)) ps sl)))"

definition abstracts :: "HMap \<Rightarrow> Mem \<Rightarrow> Heap \<Rightarrow> bool" where
  "abstracts m s h = (brk_m s = brk h \<and> chains_of (newer m) s h \<and> chains_of (older m) s h)"

section \<open>Arithmetic of positions, and chains updated in place\<close>

lemma and_pow2_mask_nat: "(x::nat) AND (2 ^ k - 1) < 2 ^ k"
proof -
  have "x AND (2 ^ k - 1) = take_bit k x"
    by (simp add: take_bit_eq_mask mask_eq_exp_minus_1)
  then show ?thesis by simp
qed

lemma get_position_less:
  assumes "Suc (mask_f t) = 2 ^ k"
  shows "get_position t hc < Suc (mask_f t)"
proof -
  have "mask_f t = 2 ^ k - 1" using assms by (metis diff_Suc_1)
  then show ?thesis
    using and_pow2_mask_nat [of "unat hc" k] assms by (simp add: get_position_def)
qed

lemma pow2_assert: "((2::nat) ^ k - 1) AND 2 ^ k = 0"
proof -
  have "((2::nat) ^ k - 1) AND 2 ^ k = take_bit k (2 ^ k)"
    by (simp add: take_bit_eq_mask mask_eq_exp_minus_1 and.commute)
  then show ?thesis by simp
qed

lemma mset_concat_update:
  assumes "i < length sl"
  shows "mset (concat (sl[i := c])) + mset (sl ! i) = mset (concat sl) + mset c"
proof -
  have a: "sl = take i sl @ sl ! i # drop (Suc i) sl"
    using assms by (rule id_take_nth_drop)
  have b: "sl[i := c] = take i sl @ c # drop (Suc i) sl"
    using assms by (rule upd_conv_take_nth_drop)
  have "mset (concat sl) = mset (concat (take i sl)) + mset (sl ! i) + mset (concat (drop (Suc i) sl))"
    by (subst a) simp
  moreover have "mset (concat (sl[i := c])) = mset (concat (take i sl)) + mset c + mset (concat (drop (Suc i) sl))"
    by (subst b) simp
  ultimately show ?thesis by simp
qed

lemma mset_concat_cons:
  assumes "i < length sl"
  shows "mset (concat (sl[i := n # sl ! i])) = add_mset n (mset (concat sl))"
  using mset_concat_update [OF assms, of "n # sl ! i"] by simp

lemma mset_concat_tl:
  assumes "i < length sl" "sl ! i = n # rest"
  shows "add_mset n (mset (concat (sl[i := rest]))) = mset (concat sl)"
  using mset_concat_update [OF assms(1), of rest] assms(2) by simp

section \<open>What the table operations do to a live array\<close>

lemma slots_of_Some: "slots_of t h = Some sl \<longleftrightarrow> (\<exists>a. tab t = Some a \<and> cells h a = Some sl)"
  by (simp add: slots_of_def split: option.splits)

lemma nonempty_slot:
  assumes "0 < length (concat sl)"
  shows "\<exists>i < length sl. sl ! i \<noteq> []"
proof -
  from assms have "concat sl \<noteq> []" by auto
  then obtain c where "c \<in> set sl" "c \<noteq> []" by (auto simp: concat_eq_Nil_conv)
  then show ?thesis by (auto simp: in_set_conv_nth)
qed

lemma HTab_insert_eq:
  assumes "tab t = Some a" "cells h a = Some sl" "get_position t (hcode n) < length sl"
  shows "HTab_insert n t h =
    Some (t\<lparr>size_f := size_f t + 1\<rparr>,
          h\<lparr>cells := (cells h)(a \<mapsto> sl[get_position t (hcode n) := n # sl ! get_position t (hcode n)])\<rparr>)"
  using assms by (simp add: HTab_insert_def read_slot_def write_slot_def slots_of_def Let_def)

lemma HTab_detach_eq:
  assumes "tab t = Some a" "cells h a = Some sl" "p < length sl" "i < length (sl ! p)"
    "0 < size_f t"
  shows "HTab_detach (Link p i) t h =
    Some (sl ! p ! i, t\<lparr>size_f := size_f t - 1\<rparr>,
          h\<lparr>cells := (cells h)(a \<mapsto> sl[p := take i (sl ! p) @ drop (Suc i) (sl ! p)])\<rparr>)"
  using assms by (simp add: HTab_detach_def read_slot_def write_slot_def slots_of_def)

lemma rehash_iter_empty:
  assumes "read_slot (older m) h (migrate_pos m) = Some []"
  shows "rehash_iter w m h = Some (w, m\<lparr>migrate_pos := migrate_pos m + 1\<rparr>, h)"
  using assms by (simp add: rehash_iter_def)

lemma rehash_iter_move:
  assumes "tab (older m) = Some b" "cells h b = Some sb" "migrate_pos m < length sb"
    "sb ! migrate_pos m = n # rest" "0 < size_f (older m)"
    "tab (newer m) = Some a" "a \<noteq> b" "cells h a = Some sa"
    "get_position (newer m) (hcode n) < length sa"
  shows "rehash_iter w m h =
    Some (w + 1,
          m\<lparr>newer := (newer m)\<lparr>size_f := size_f (newer m) + 1\<rparr>,
            older := (older m)\<lparr>size_f := size_f (older m) - 1\<rparr>\<rparr>,
          h\<lparr>cells := (cells h)
               (b \<mapsto> sb[migrate_pos m := rest],
                a \<mapsto> sa[get_position (newer m) (hcode n) := n # sa ! get_position (newer m) (hcode n)])\<rparr>)"
proof -
  have d: "HTab_detach (Link (migrate_pos m) 0) (older m) h =
    Some (n, (older m)\<lparr>size_f := size_f (older m) - 1\<rparr>,
          h\<lparr>cells := (cells h)(b \<mapsto> sb[migrate_pos m := rest])\<rparr>)"
    using HTab_detach_eq [OF assms(1,2,3), of 0] assms(4,5) by simp
  have i: "HTab_insert n (newer m) (h\<lparr>cells := (cells h)(b \<mapsto> sb[migrate_pos m := rest])\<rparr>) =
    Some ((newer m)\<lparr>size_f := size_f (newer m) + 1\<rparr>,
      h\<lparr>cells := (cells h)
               (b \<mapsto> sb[migrate_pos m := rest],
                a \<mapsto> sa[get_position (newer m) (hcode n) := n # sa ! get_position (newer m) (hcode n)])\<rparr>)"
    using HTab_insert_eq [of "newer m" a "h\<lparr>cells := (cells h)(b \<mapsto> sb[migrate_pos m := rest])\<rparr>" sa n]
      assms(6,7,8,9) by simp
  have r: "read_slot (older m) h (migrate_pos m) = Some (n # rest)"
    using assms(1-4) by (simp add: read_slot_def slots_of_def)
  show ?thesis
    by (simp add: rehash_iter_def r d i)
qed

section \<open>The invariant is kept\<close>

lemma get_position_size [simp]: "get_position (t\<lparr>size_f := x\<rparr>) hc = get_position t hc"
  by (simp add: get_position_def)

lemma slots_ok_position:
  "slots_ok t sl \<Longrightarrow> get_position t hc < length sl"
  using get_position_less by (auto simp: slots_ok_def)

lemma length_concat_cons:
  assumes "i < length sl"
  shows "length (concat (sl[i := n # sl ! i])) = Suc (length (concat sl))"
proof -
  have "size (mset (concat (sl[i := n # sl ! i]))) = size (add_mset n (mset (concat sl)))"
    by (simp only: mset_concat_cons [OF assms])
  then show ?thesis by simp
qed

lemma mset_concat_remove:
  assumes "p < length sl" "i < length (sl ! p)"
  shows "add_mset (sl ! p ! i) (mset (concat (sl[p := take i (sl ! p) @ drop (Suc i) (sl ! p)])))
         = mset (concat sl)"
proof -
  have "mset (sl ! p) = mset (take i (sl ! p) @ sl ! p ! i # drop (Suc i) (sl ! p))"
    using id_take_nth_drop [OF assms(2)] by simp
  then have "mset (sl ! p) = add_mset (sl ! p ! i) (mset (take i (sl ! p) @ drop (Suc i) (sl ! p)))"
    by simp
  then show ?thesis
    using mset_concat_update [OF assms(1), of "take i (sl ! p) @ drop (Suc i) (sl ! p)"]
    by simp
qed

lemma length_concat_remove:
  assumes "p < length sl" "i < length (sl ! p)"
  shows "Suc (length (concat (sl[p := take i (sl ! p) @ drop (Suc i) (sl ! p)]))) = length (concat sl)"
proof -
  have "size (add_mset (sl ! p ! i) (mset (concat (sl[p := take i (sl ! p) @ drop (Suc i) (sl ! p)]))))
        = size (mset (concat sl))"
    by (simp only: mset_concat_remove [OF assms])
  then show ?thesis by simp
qed

lemma slots_ok_insert:
  assumes "slots_ok t sl" "p = get_position t (hcode n)"
  shows "slots_ok (t\<lparr>size_f := size_f t + 1\<rparr>) (sl[p := n # sl ! p])"
proof -
  have p: "p < length sl" using assms slots_ok_position by simp
  have "\<forall>i < length sl. \<forall>x \<in> set ((sl[p := n # sl ! p]) ! i). get_position t (hcode x) = i"
    using assms p by (auto simp: slots_ok_def nth_list_update)
  then show ?thesis
    using assms(1) p by (simp add: slots_ok_def length_concat_cons)
qed

lemma slots_ok_remove:
  assumes "slots_ok t sl" "p < length sl" "i < length (sl ! p)"
  shows "slots_ok (t\<lparr>size_f := size_f t - 1\<rparr>) (sl[p := take i (sl ! p) @ drop (Suc i) (sl ! p)])"
proof -
  have "\<forall>j < length sl. \<forall>x \<in> set ((sl[p := take i (sl ! p) @ drop (Suc i) (sl ! p)]) ! j).
          get_position t (hcode x) = j"
    using assms by (auto simp: slots_ok_def nth_list_update dest: in_set_takeD in_set_dropD)
  moreover have "size_f t - 1 = length (concat (sl[p := take i (sl ! p) @ drop (Suc i) (sl ! p)]))"
    using length_concat_remove [OF assms(2,3)] assms(1) by (simp add: slots_ok_def)
  ultimately show ?thesis
    using assms(1) by (simp add: slots_ok_def)
qed

lemma tab_ok_other:
  "tab t \<noteq> Some a \<Longrightarrow> tab_ok t (h\<lparr>cells := (cells h)(a \<mapsto> sl)\<rparr>) = tab_ok t h"
  by (auto simp: tab_ok_def split: option.splits)

lemma tab_ok_live:
  "tab t = Some a \<Longrightarrow> tab_ok t (h\<lparr>cells := (cells h)(a \<mapsto> sl)\<rparr>) = slots_ok t sl"
  by (simp add: tab_ok_def)

lemma tab_ok_Some:
  "tab t = Some a \<Longrightarrow> tab_ok t h \<longleftrightarrow> (\<exists>sl. cells h a = Some sl \<and> slots_ok t sl)"
  by (simp add: tab_ok_def split: option.splits)

lemma heap_ok_update:
  "heap_ok h \<Longrightarrow> cells h a = Some sl \<Longrightarrow> heap_ok (h\<lparr>cells := (cells h)(a \<mapsto> sl')\<rparr>)"
  by (auto simp: heap_ok_def)

lemma distinct_addr_mset:
  "mset xs = mset ys \<Longrightarrow> distinct (map addr xs) = distinct (map addr ys)"
  by (metis mset_eq_imp_distinct_iff mset_map)

subsection \<open>One turn of the migration loop\<close>

lemma moves_refl: "moves 0 m h m h"
  by (simp add: moves_def)

lemma moves_trans:
  assumes "moves j m h m1 h1" "moves k m1 h1 m2 h2"
  shows "moves (j + k) m h m2 h2"
proof -
  from assms(1) obtain M where M: "size M = j"
    "mset (nodes_of (older m) h) = mset (nodes_of (older m1) h1) + M"
    "mset (nodes_of (newer m1) h1) = mset (nodes_of (newer m) h) + M"
    and r1: "tab (newer m1) = tab (newer m)" "mask_f (newer m1) = mask_f (newer m)"
    "tab (older m1) = tab (older m)" "mask_f (older m1) = mask_f (older m)"
    "size_f (newer m1) = size_f (newer m) + j" "size_f (older m1) + j = size_f (older m)"
    "migrate_pos m \<le> migrate_pos m1" "brk h1 = brk h"
    unfolding moves_def by blast
  from assms(2) obtain N where N: "size N = k"
    "mset (nodes_of (older m1) h1) = mset (nodes_of (older m2) h2) + N"
    "mset (nodes_of (newer m2) h2) = mset (nodes_of (newer m1) h1) + N"
    and r2: "tab (newer m2) = tab (newer m1)" "mask_f (newer m2) = mask_f (newer m1)"
    "tab (older m2) = tab (older m1)" "mask_f (older m2) = mask_f (older m1)"
    "size_f (newer m2) = size_f (newer m1) + k" "size_f (older m2) + k = size_f (older m1)"
    "migrate_pos m1 \<le> migrate_pos m2" "brk h2 = brk h1"
    unfolding moves_def by blast
  have "size (M + N) = j + k" using M(1) N(1) by simp
  moreover have "mset (nodes_of (older m) h) = mset (nodes_of (older m2) h2) + (M + N)"
    using M(2) N(2) by (simp add: ac_simps)
  moreover have "mset (nodes_of (newer m2) h2) = mset (nodes_of (newer m) h) + (M + N)"
    using M(3) N(3) by (simp add: ac_simps)
  ultimately show ?thesis
    unfolding moves_def using r1 r2 by (intro exI [of _ "M + N"]) simp
qed

lemma live_older:
  assumes "hmap_inv m h" "0 < size_f (older m)"
  obtains a b sa sb where
    "tab (newer m) = Some a" "cells h a = Some sa" "slots_ok (newer m) sa"
    "tab (older m) = Some b" "cells h b = Some sb" "slots_ok (older m) sb"
    "a \<noteq> b" "migrate_pos m < length sb"
proof -
  from assms have ok: "tab_ok (older m) h" "tab_ok (newer m) h" "cursor_ok m h"
    and ne: "tab (older m) \<noteq> None \<longrightarrow> tab (newer m) \<noteq> None \<and> tab (newer m) \<noteq> tab (older m)"
    by (simp_all add: hmap_inv_def)
  from ok(1) assms(2) obtain b where b: "tab (older m) = Some b"
    by (cases "tab (older m)") (auto simp: tab_ok_def)
  with ok(1) obtain sb where sb: "cells h b = Some sb" "slots_ok (older m) sb"
    by (auto simp: tab_ok_Some)
  from ne b obtain a where a: "tab (newer m) = Some a" "a \<noteq> b" by auto
  with ok(2) obtain sa where sa: "cells h a = Some sa" "slots_ok (newer m) sa"
    by (auto simp: tab_ok_Some)
  from sb(2) assms(2) have "0 < length (concat sb)" by (simp add: slots_ok_def)
  from nonempty_slot [OF this] obtain i where i: "i < length sb" "sb ! i \<noteq> []" by blast
  from ok(3) b sb(1) have "\<forall>i < length sb. i < migrate_pos m \<longrightarrow> sb ! i = []"
    by (simp add: cursor_ok_def slots_of_def)
  with i have "\<not> i < migrate_pos m" by blast
  with i(1) have c: "migrate_pos m < length sb" by simp
  show ?thesis
    by (rule that [OF a(1) sa(1) sa(2) b sb(1) sb(2) a(2) c])
qed

lemma nodes_of_live:
  "tab t = Some a \<Longrightarrow> cells h a = Some sl \<Longrightarrow> nodes_of t h = concat sl"
  by (simp add: nodes_of_def slots_of_def)

lemma rehash_iter_empty_inv:
  assumes inv: "hmap_inv m h"
    and b: "tab (older m) = Some b" "cells h b = Some sb" "migrate_pos m < length sb"
    and e: "sb ! migrate_pos m = []"
  shows "hmap_inv (m\<lparr>migrate_pos := migrate_pos m + 1\<rparr>) h"
proof -
  from inv b(1,2) have "\<forall>i < length sb. i < migrate_pos m \<longrightarrow> sb ! i = []"
    by (simp add: hmap_inv_def cursor_ok_def slots_of_def)
  with e have "\<forall>i < length sb. i < migrate_pos m + 1 \<longrightarrow> sb ! i = []"
    by (auto simp: less_Suc_eq)
  then have "cursor_ok (m\<lparr>migrate_pos := migrate_pos m + 1\<rparr>) h"
    using b(1,2) by (simp add: cursor_ok_def slots_of_def)
  then show ?thesis
    using inv by (simp add: hmap_inv_def all_nodes_def)
qed

lemma rehash_iter_move_inv:
  assumes inv: "hmap_inv m h"
    and a: "tab (newer m) = Some a" "cells h a = Some sa" "slots_ok (newer m) sa"
    and b: "tab (older m) = Some b" "cells h b = Some sb" "slots_ok (older m) sb"
    and ab: "a \<noteq> b" and c: "migrate_pos m < length sb"
    and n: "sb ! migrate_pos m = n # rest"
    and m': "m' = m\<lparr>newer := (newer m)\<lparr>size_f := size_f (newer m) + 1\<rparr>,
                    older := (older m)\<lparr>size_f := size_f (older m) - 1\<rparr>\<rparr>"
    and h': "h' = h\<lparr>cells := (cells h)
               (b \<mapsto> sb[migrate_pos m := rest],
                a \<mapsto> sa[get_position (newer m) (hcode n) := n # sa ! get_position (newer m) (hcode n)])\<rparr>"
  shows "hmap_inv m' h'" and "moves 1 m h m' h'"
proof -
  let ?p = "get_position (newer m) (hcode n)"
  let ?sa = "sa[?p := n # sa ! ?p]"
  let ?sb = "sb[migrate_pos m := rest]"
  have p: "?p < length sa" using a(3) by (rule slots_ok_position)
  have ca: "cells h' a = Some ?sa" and cb: "cells h' b = Some ?sb"
    using ab by (simp_all add: h')
  have ta: "tab (newer m') = Some a" and tb: "tab (older m') = Some b"
    using a(1) b(1) by (simp_all add: m')
  have hk: "heap_ok h'"
    using inv a(2) b(2) by (auto simp: hmap_inv_def heap_ok_def h')
  have oka: "slots_ok (newer m') ?sa"
    using slots_ok_insert [OF a(3) refl, of n] by (simp add: m')
  have "slots_ok ((older m)\<lparr>size_f := size_f (older m) - 1\<rparr>)
          (sb[migrate_pos m := take 0 (sb ! migrate_pos m) @ drop (Suc 0) (sb ! migrate_pos m)])"
    using n by (intro slots_ok_remove [OF b(3) c]) simp
  then have okb: "slots_ok (older m') ?sb"
    using n by (simp add: m')
  have na: "nodes_of (newer m') h' = concat ?sa" and nb: "nodes_of (older m') h' = concat ?sb"
    using ta tb ca cb by (simp_all add: nodes_of_live)
  have na0: "nodes_of (newer m) h = concat sa" and nb0: "nodes_of (older m) h = concat sb"
    using a b by (simp_all add: nodes_of_live)
  have ma: "mset (concat ?sa) = add_mset n (mset (concat sa))"
    using p by (rule mset_concat_cons)
  have mb: "add_mset n (mset (concat ?sb)) = mset (concat sb)"
    using c n by (rule mset_concat_tl)
  have "mset (all_nodes m' h') = mset (all_nodes m h)"
    using ma mb by (simp add: all_nodes_def na nb na0 nb0 del: mset_concat)
  then have dist: "distinct (map addr (all_nodes m' h'))"
    using inv distinct_addr_mset by (auto simp: hmap_inv_def)
  from inv b(1,2) have "\<forall>i < length sb. i < migrate_pos m \<longrightarrow> sb ! i = []"
    by (simp add: hmap_inv_def cursor_ok_def slots_of_def)
  then have cur: "cursor_ok m' h'"
    using tb cb by (simp add: cursor_ok_def slots_of_def m')
  show "hmap_inv m' h'"
    using hk oka okb dist cur ta tb ca cb ab
    by (simp add: hmap_inv_def tab_ok_def)
  have "Suc (length (concat ?sb)) = length (concat sb)"
    using length_concat_remove [OF c, of 0] n by simp
  then have sz: "0 < size_f (older m)"
    using b(3) unfolding slots_ok_def by linarith
  have "size {#n#} = 1" by simp
  moreover have "mset (nodes_of (older m) h) = mset (nodes_of (older m') h') + {#n#}"
    using mb by (simp add: nb nb0 del: mset_concat)
  moreover have "mset (nodes_of (newer m') h') = mset (nodes_of (newer m) h) + {#n#}"
    using ma by (simp add: na na0 del: mset_concat)
  ultimately show "moves 1 m h m' h'"
    unfolding moves_def using sz by (intro exI [of _ "{#n#}"]) (simp add: m' h')
qed

lemma rehash_iter_step:
  assumes inv: "hmap_inv m h" and sz: "0 < size_f (older m)"
  shows "\<exists>w' m' h'. rehash_iter w m h = Some (w', m', h') \<and> hmap_inv m' h' \<and>
           moves (w' - w) m h m' h' \<and> w \<le> w' \<and> w' \<le> w + 1"
proof (rule live_older [OF inv sz])
  fix a b sa sb
  assume a: "tab (newer m) = Some a" "cells h a = Some sa" "slots_ok (newer m) sa"
    and b: "tab (older m) = Some b" "cells h b = Some sb" "slots_ok (older m) sb"
    and ab: "a \<noteq> b" and c: "migrate_pos m < length sb"
  show ?thesis
  proof (cases "sb ! migrate_pos m")
    case Nil
    have "read_slot (older m) h (migrate_pos m) = Some []"
      using b(1,2) c Nil by (simp add: read_slot_def slots_of_def)
    then have "rehash_iter w m h = Some (w, m\<lparr>migrate_pos := migrate_pos m + 1\<rparr>, h)"
      by (rule rehash_iter_empty)
    moreover have "hmap_inv (m\<lparr>migrate_pos := migrate_pos m + 1\<rparr>) h"
      using inv b(1,2) c Nil by (rule rehash_iter_empty_inv)
    moreover have "moves 0 m h (m\<lparr>migrate_pos := migrate_pos m + 1\<rparr>) h"
      by (simp add: moves_def)
    ultimately show ?thesis by simp
  next
    case (Cons n rest)
    let ?m = "m\<lparr>newer := (newer m)\<lparr>size_f := size_f (newer m) + 1\<rparr>,
                older := (older m)\<lparr>size_f := size_f (older m) - 1\<rparr>\<rparr>"
    let ?h = "h\<lparr>cells := (cells h)
               (b \<mapsto> sb[migrate_pos m := rest],
                a \<mapsto> sa[get_position (newer m) (hcode n) := n # sa ! get_position (newer m) (hcode n)])\<rparr>"
    have p: "get_position (newer m) (hcode n) < length sa"
      using a(3) by (rule slots_ok_position)
    have "rehash_iter w m h = Some (w + 1, ?m, ?h)"
      using b(1,2) c Cons sz a(1) ab a(2) p by (rule rehash_iter_move)
    moreover have "hmap_inv ?m ?h" and "moves 1 m h ?m ?h"
      using rehash_iter_move_inv [OF inv a b ab c Cons refl refl] by blast+
    ultimately show ?thesis by simp
  qed
qed

lemma rehash_loop_inv:
  "hmap_inv m h \<Longrightarrow>
   \<exists>m' h' k. rehash_loop w m h = Some (m', h') \<and> hmap_inv m' h' \<and> moves k m h m' h' \<and>
     w + k \<le> max w kRehasingWork \<and> (size_f (older m') = 0 \<or> kRehasingWork \<le> w + k)"
proof (induction w m h rule: rehash_loop.induct)
  case (1 w m h)
  show ?case
  proof (cases "w < kRehasingWork \<and> 0 < size_f (older m)")
    case True
    from True have "0 < size_f (older m)" by simp
    from rehash_iter_step [OF "1.prems" this, of w] obtain w' m1 h1 where
      step: "rehash_iter w m h = Some (w', m1, h1)" and inv1: "hmap_inv m1 h1" and
      mv1: "moves (w' - w) m h m1 h1" and w: "w \<le> w'" "w' \<le> w + 1"
      by blast
    from "1.IH" [OF True step refl refl inv1] obtain m' h' k where
      loop: "rehash_loop w' m1 h1 = Some (m', h')" and inv': "hmap_inv m' h'" and
      mv2: "moves k m1 h1 m' h'" and
      k: "w' + k \<le> max w' kRehasingWork" "size_f (older m') = 0 \<or> kRehasingWork \<le> w' + k"
      by blast
    have "rehash_loop w m h = Some (m', h')"
      using True step loop by (subst rehash_loop.simps) simp
    moreover have "moves (w' - w + k) m h m' h'"
      using mv1 mv2 by (rule moves_trans)
    moreover have "w + (w' - w + k) \<le> max w kRehasingWork"
      using w k(1) True by simp
    moreover have "size_f (older m') = 0 \<or> kRehasingWork \<le> w + (w' - w + k)"
      using w k(2) by auto
    ultimately show ?thesis using inv' by blast
  next
    case False
    have "rehash_loop w m h = Some (m, h)"
      by (subst rehash_loop.simps) (simp only: False if_False)
    moreover have "size_f (older m) = 0 \<or> kRehasingWork \<le> w + 0"
      using False by auto
    ultimately show ?thesis
      using "1.prems" moves_refl [of m h] by (intro exI [of _ m] exI [of _ h] exI [of _ 0]) simp
  qed
qed

subsection \<open>The bounded migration step\<close>

lemma HTab_empty_eq: "tab t = None \<Longrightarrow> tab_ok t h \<Longrightarrow> t = HTab_empty"
  by (simp add: tab_ok_def HTab_empty_def)

lemma nodes_of_none: "tab t = None \<Longrightarrow> nodes_of t h = []"
  by (simp add: nodes_of_def slots_of_def)

lemma nodes_of_size0: "tab_ok t h \<Longrightarrow> size_f t = 0 \<Longrightarrow> nodes_of t h = []"
  by (auto simp: tab_ok_def nodes_of_def slots_of_def slots_ok_def split: option.splits)

lemma nodes_of_empty [simp]: "nodes_of HTab_empty h = []"
  by (simp add: nodes_of_def slots_of_def HTab_empty_def)

lemma nodes_of_free_other:
  "tab t \<noteq> Some b \<Longrightarrow> nodes_of t (h\<lparr>cells := (cells h)(b := None)\<rparr>) = nodes_of t h"
  by (auto simp: nodes_of_def slots_of_def split: option.splits)

lemma tab_ok_free_other:
  "tab t \<noteq> Some b \<Longrightarrow> tab_ok t (h\<lparr>cells := (cells h)(b := None)\<rparr>) = tab_ok t h"
  by (auto simp: tab_ok_def split: option.splits)

lemma free_drained_inv:
  assumes inv: "hmap_inv m h" and z: "size_f (older m) = 0" and b: "tab (older m) = Some b"
  shows "free (tab (older m)) h = Some (h\<lparr>cells := (cells h)(b := None)\<rparr>)"
    and "hmap_inv (m\<lparr>older := HTab_empty\<rparr>) (h\<lparr>cells := (cells h)(b := None)\<rparr>)"
    and "nodes_of (newer m) (h\<lparr>cells := (cells h)(b := None)\<rparr>) = nodes_of (newer m) h"
    and "nodes_of (older m) h = []"
proof -
  from inv have ok: "heap_ok h" "tab_ok (newer m) h" "tab_ok (older m) h"
    "distinct (map addr (all_nodes m h))"
    and ne: "tab (newer m) \<noteq> Some b"
    using b by (auto simp: hmap_inv_def)
  from ok(3) b obtain sb where sb: "cells h b = Some sb" by (auto simp: tab_ok_Some)
  show "free (tab (older m)) h = Some (h\<lparr>cells := (cells h)(b := None)\<rparr>)"
    using b sb by (simp add: free_def)
  show n: "nodes_of (newer m) (h\<lparr>cells := (cells h)(b := None)\<rparr>) = nodes_of (newer m) h"
    using ne by (rule nodes_of_free_other)
  show e: "nodes_of (older m) h = []"
    using ok(3) z by (rule nodes_of_size0)
  have "heap_ok (h\<lparr>cells := (cells h)(b := None)\<rparr>)"
    using ok(1) by (simp add: heap_ok_def)
  moreover have "tab_ok (newer m) (h\<lparr>cells := (cells h)(b := None)\<rparr>)"
    using ne ok(2) by (simp add: tab_ok_free_other)
  moreover have "tab_ok HTab_empty (h\<lparr>cells := (cells h)(b := None)\<rparr>)"
    by (simp add: tab_ok_def HTab_empty_def)
  moreover have "cursor_ok (m\<lparr>older := HTab_empty\<rparr>) (h\<lparr>cells := (cells h)(b := None)\<rparr>)"
    by (simp add: cursor_ok_def slots_of_def HTab_empty_def)
  moreover have "tab HTab_empty = None" by (simp add: HTab_empty_def)
  ultimately show "hmap_inv (m\<lparr>older := HTab_empty\<rparr>) (h\<lparr>cells := (cells h)(b := None)\<rparr>)"
    using ok(4) n e by (simp add: hmap_inv_def all_nodes_def)
qed

lemma help_rehashing_inv:
  assumes inv: "hmap_inv m h"
  shows "\<exists>m' h' k. help_rehashing m h = Some (m', h') \<and> hmap_inv m' h' \<and>
           helped k m h m' h' \<and> k \<le> kRehasingWork"
proof -
  from rehash_loop_inv [OF inv, of 0] obtain m1 h1 k where
    loop: "rehash_loop 0 m h = Some (m1, h1)" and inv1: "hmap_inv m1 h1" and
    mv: "moves k m h m1 h1" and k: "k \<le> kRehasingWork"
    "size_f (older m1) = 0 \<or> kRehasingWork \<le> k"
    by (auto simp: kRehasingWork_def)
  from mv obtain M where M: "size M = k"
    "mset (nodes_of (older m) h) = mset (nodes_of (older m1) h1) + M"
    "mset (nodes_of (newer m1) h1) = mset (nodes_of (newer m) h) + M"
    and r: "tab (newer m1) = tab (newer m)" "mask_f (newer m1) = mask_f (newer m)"
    "tab (older m1) = tab (older m)" "mask_f (older m1) = mask_f (older m)"
    "size_f (newer m1) = size_f (newer m) + k" "size_f (older m1) + k = size_f (older m)"
    "brk h1 = brk h"
    unfolding moves_def by blast
  from inv1 have ok1: "tab_ok (older m1) h1" by (simp add: hmap_inv_def)
  show ?thesis
  proof (cases "size_f (older m1) = 0")
    case True
    show ?thesis
    proof (cases "tab (older m1)")
      case None
      have "help_rehashing m h = Some (m1, h1)"
        using loop True None by (simp add: help_rehashing_def)
      moreover have "older m1 = HTab_empty" using None ok1 by (rule HTab_empty_eq)
      then have "helped k m h m1 h1"
        unfolding helped_def using M r True None by (auto simp: HTab_empty_def)
      ultimately show ?thesis using inv1 k(1) by blast
    next
      case (Some b)
      let ?m = "m1\<lparr>older := HTab_empty\<rparr>" and ?h = "h1\<lparr>cells := (cells h1)(b := None)\<rparr>"
      note f = free_drained_inv [OF inv1 True Some]
      have "help_rehashing m h = Some (?m, ?h)"
        using loop True Some f(1) by (simp add: help_rehashing_def)
      moreover have "mset (nodes_of (older m) h) = mset (nodes_of (older ?m) ?h) + M"
        using M(2) f(4) by simp
      moreover have "mset (nodes_of (newer ?m) ?h) = mset (nodes_of (newer m) h) + M"
        using M(3) f(3) by simp
      ultimately have "helped k m h ?m ?h"
        unfolding helped_def using M(1) r True Some by (auto simp: HTab_empty_def)
      with \<open>help_rehashing m h = Some (?m, ?h)\<close> f(2) k(1) show ?thesis by blast
    qed
  next
    case False
    with ok1 obtain b sb where b: "tab (older m1) = Some b" "cells h1 b = Some sb"
      by (cases "tab (older m1)") (auto simp: tab_ok_def split: option.splits)
    have "help_rehashing m h = Some (m1, h1)"
      using loop False by (simp add: help_rehashing_def)
    moreover have sl: "slots_of (older m1) h1 \<noteq> None"
      using b by (simp add: slots_of_def)
    have "k = kRehasingWork" using k False by simp
    then have "helped k m h m1 h1"
      unfolding helped_def using M r False sl by auto
    ultimately show ?thesis using inv1 k(1) by blast
  qed
qed

subsection \<open>Looking a key up in one table\<close>

lemma scan_None:
  "scan key eq c j = None \<longleftrightarrow> (\<forall>n \<in> set c. \<not> (hcode n = hcode key \<and> eq n key))"
  by (induction c arbitrary: j) auto

lemma scan_Some:
  "scan key eq c j = Some i \<Longrightarrow>
     j \<le> i \<and> i - j < length c \<and> hcode (c ! (i - j)) = hcode key \<and> eq (c ! (i - j)) key"
proof (induction c arbitrary: j)
  case Nil
  then show ?case by simp
next
  case (Cons x c)
  show ?case
  proof (cases "hcode x = hcode key \<and> eq x key")
    case True
    with Cons.prems show ?thesis by simp
  next
    case False
    with Cons.prems have "scan key eq c (Suc j) = Some i" by auto
    from Cons.IH [OF this] have "Suc j \<le> i" "i - Suc j < length c"
      "hcode (c ! (i - Suc j)) = hcode key" "eq (c ! (i - Suc j)) key"
      by simp_all
    moreover from \<open>Suc j \<le> i\<close> have "i - j = Suc (i - Suc j)" by simp
    ultimately show ?thesis by simp
  qed
qed

lemma HTab_lookup_null: "tab t = None \<Longrightarrow> HTab_lookup key eq t h = Some None"
  by (simp add: HTab_lookup_def)

lemma HTab_lookup_live:
  assumes "tab t = Some a" "cells h a = Some sl" "slots_ok t sl"
  shows "HTab_lookup key eq t h =
     Some (map_option (Link (get_position t (hcode key)))
             (scan key eq (sl ! get_position t (hcode key)) 0))"
  using assms slots_ok_position [OF assms(3), of "hcode key"]
  by (simp add: HTab_lookup_def read_slot_def slots_of_def Let_def)

lemma deref_eq:
  assumes "tab t = Some a" "cells h a = Some sl" "p < length sl" "i < length (sl ! p)"
  shows "deref (Link p i) t h = Some (sl ! p ! i)"
  using assms by (simp add: deref_def read_slot_def slots_of_def)

lemma in_nodes_slot:
  assumes "tab t = Some a" "cells h a = Some sl" "slots_ok t sl" "n \<in> set (nodes_of t h)"
  shows "n \<in> set (sl ! get_position t (hcode n))"
proof -
  from assms(1,2,4) have "n \<in> set (concat sl)" by (simp add: nodes_of_live)
  then obtain c where "c \<in> set sl" "n \<in> set c" by auto
  then obtain i where i: "i < length sl" "n \<in> set (sl ! i)" by (auto simp: in_set_conv_nth)
  with assms(3) have "get_position t (hcode n) = i" by (simp add: slots_ok_def)
  with i(2) show ?thesis by simp
qed

text \<open>A miss means that no linked node of the table matches; a hit is the incoming
  pointer of a linked node that matches.\<close>

lemma HTab_lookup_miss:
  assumes ok: "tab_ok t h" and miss: "HTab_lookup key eq t h = Some None"
    and n: "n \<in> set (nodes_of t h)"
  shows "\<not> (hcode n = hcode key \<and> eq n key)"
proof (cases "tab t")
  case None
  with n show ?thesis by (simp add: nodes_of_none)
next
  case (Some a)
  with ok obtain sl where sl: "cells h a = Some sl" "slots_ok t sl" by (auto simp: tab_ok_Some)
  show ?thesis
  proof
    assume m: "hcode n = hcode key \<and> eq n key"
    from in_nodes_slot [OF Some sl n] m have "n \<in> set (sl ! get_position t (hcode key))" by simp
    moreover from miss have "scan key eq (sl ! get_position t (hcode key)) 0 = None"
      by (simp add: HTab_lookup_live [OF Some sl])
    ultimately show False using m unfolding scan_None by blast
  qed
qed

lemma HTab_lookup_cases [consumes 1, case_names miss hit]:
  assumes ok: "tab_ok t h"
  obtains (miss) "HTab_lookup key eq t h = Some None"
  | (hit) p i a sl where "HTab_lookup key eq t h = Some (Some (Link p i))"
      "tab t = Some a" "cells h a = Some sl" "slots_ok t sl" "p < length sl"
      "i < length (sl ! p)" "hcode (sl ! p ! i) = hcode key" "eq (sl ! p ! i) key"
proof (cases "tab t")
  case None
  then show ?thesis using miss by (simp add: HTab_lookup_null)
next
  case (Some a)
  with ok obtain sl where sl: "cells h a = Some sl" "slots_ok t sl" by (auto simp: tab_ok_Some)
  let ?p = "get_position t (hcode key)"
  have p: "?p < length sl" using sl(2) by (rule slots_ok_position)
  note lk = HTab_lookup_live [OF Some sl, of key eq]
  show ?thesis
  proof (cases "scan key eq (sl ! ?p) 0")
    case None
    then show ?thesis using miss lk by simp
  next
    case (Some i)
    from scan_Some [OF Some] have "i < length (sl ! ?p)" "hcode (sl ! ?p ! i) = hcode key"
      "eq (sl ! ?p ! i) key" by simp_all
    moreover have "HTab_lookup key eq t h = Some (Some (Link ?p i))" using lk Some by simp
    ultimately show ?thesis using hit \<open>tab t = Some a\<close> sl p by blast
  qed
qed

subsection \<open>Unlinking a node\<close>

lemma nodes_of_other:
  "tab t \<noteq> Some a \<Longrightarrow> nodes_of t (h\<lparr>cells := (cells h)(a \<mapsto> sl)\<rparr>) = nodes_of t h"
  by (auto simp: nodes_of_def slots_of_def split: option.splits)

lemma nodes_of_update:
  "tab t = Some a \<Longrightarrow> nodes_of t (h\<lparr>cells := (cells h)(a \<mapsto> sl)\<rparr>) = concat sl"
  by (simp add: nodes_of_def slots_of_def)

lemma distinct_addr_add:
  assumes "add_mset x (mset xs) = mset ys" "distinct (map addr ys)"
  shows "distinct (map addr xs)"
proof -
  from assms(1) have "mset (x # xs) = mset ys" by simp
  from distinct_addr_mset [OF this] assms(2) show ?thesis by simp
qed

lemma removed_size:
  assumes "slots_ok t sl" "p < length sl" "i < length (sl ! p)"
  shows "0 < size_f t"
proof -
  from length_concat_remove [OF assms(2,3)] have "0 < length (concat sl)" by linarith
  with assms(1) show ?thesis by (simp add: slots_ok_def)
qed

lemma detach_newer_inv:
  assumes inv: "hmap_inv m h"
    and a: "tab (newer m) = Some a" "cells h a = Some sl" "slots_ok (newer m) sl"
    and p: "p < length sl" "i < length (sl ! p)"
    and m': "m' = m\<lparr>newer := (newer m)\<lparr>size_f := size_f (newer m) - 1\<rparr>\<rparr>"
    and h': "h' = h\<lparr>cells := (cells h)(a \<mapsto> sl[p := take i (sl ! p) @ drop (Suc i) (sl ! p)])\<rparr>"
  shows "hmap_inv m' h'"
    and "add_mset (sl ! p ! i) (mset (all_nodes m' h')) = mset (all_nodes m h)"
    and "HMap_size m' + 1 = HMap_size m"
proof -
  let ?sl = "sl[p := take i (sl ! p) @ drop (Suc i) (sl ! p)]"
  from inv have ok: "heap_ok h" "tab_ok (older m) h" "distinct (map addr (all_nodes m h))"
    "cursor_ok m h" and ne: "tab (older m) \<noteq> Some a"
    using a(1) by (auto simp: hmap_inv_def)
  have hk: "heap_ok h'" using ok(1) a(2) unfolding h' by (rule heap_ok_update)
  have okn: "tab_ok (newer m') h'"
    using slots_ok_remove [OF a(3) p] a(1) by (simp add: m' h' tab_ok_def)
  have oko: "tab_ok (older m') h'"
    using ok(2) ne by (simp add: m' h' tab_ok_other)
  have no: "nodes_of (older m') h' = nodes_of (older m) h"
    using ne by (simp add: m' h' nodes_of_other)
  have nn: "nodes_of (newer m') h' = concat ?sl"
    using a(1) by (simp add: m' h' nodes_of_update)
  have nn0: "nodes_of (newer m) h = concat sl"
    using a(1,2) by (rule nodes_of_live)
  show ms: "add_mset (sl ! p ! i) (mset (all_nodes m' h')) = mset (all_nodes m h)"
    using mset_concat_remove [OF p] by (simp add: all_nodes_def no nn nn0 del: mset_concat)
  have dist: "distinct (map addr (all_nodes m' h'))"
    using ms ok(3) by (rule distinct_addr_add)
  have "slots_of (older m') h' = slots_of (older m) h"
    using ne by (auto simp: slots_of_def m' h' split: option.splits)
  then have cur: "cursor_ok m' h'"
    using ok(4) by (simp add: cursor_ok_def m' split: option.splits)
  show "hmap_inv m' h'"
    using hk okn oko dist cur inv by (simp add: hmap_inv_def) (simp add: m')
  show "HMap_size m' + 1 = HMap_size m"
    using removed_size [OF a(3) p] by (simp add: HMap_size_def m')
qed

lemma detach_older_inv:
  assumes inv: "hmap_inv m h"
    and b: "tab (older m) = Some b" "cells h b = Some sl" "slots_ok (older m) sl"
    and p: "p < length sl" "i < length (sl ! p)"
    and m': "m' = m\<lparr>older := (older m)\<lparr>size_f := size_f (older m) - 1\<rparr>\<rparr>"
    and h': "h' = h\<lparr>cells := (cells h)(b \<mapsto> sl[p := take i (sl ! p) @ drop (Suc i) (sl ! p)])\<rparr>"
  shows "hmap_inv m' h'"
    and "add_mset (sl ! p ! i) (mset (all_nodes m' h')) = mset (all_nodes m h)"
    and "HMap_size m' + 1 = HMap_size m"
proof -
  let ?sl = "sl[p := take i (sl ! p) @ drop (Suc i) (sl ! p)]"
  from inv have ok: "heap_ok h" "tab_ok (newer m) h" "distinct (map addr (all_nodes m h))"
    "cursor_ok m h" and ne: "tab (newer m) \<noteq> Some b" "tab (newer m) \<noteq> None"
    using b(1) by (auto simp: hmap_inv_def)
  have hk: "heap_ok h'" using ok(1) b(2) unfolding h' by (rule heap_ok_update)
  have oko: "tab_ok (older m') h'"
    using slots_ok_remove [OF b(3) p] b(1) by (simp add: m' h' tab_ok_def)
  have okn: "tab_ok (newer m') h'"
    using ok(2) ne by (simp add: m' h' tab_ok_other)
  have nn: "nodes_of (newer m') h' = nodes_of (newer m) h"
    using ne by (simp add: m' h' nodes_of_other)
  have no: "nodes_of (older m') h' = concat ?sl"
    using b(1) by (simp add: m' h' nodes_of_update)
  have no0: "nodes_of (older m) h = concat sl"
    using b(1,2) by (rule nodes_of_live)
  show ms: "add_mset (sl ! p ! i) (mset (all_nodes m' h')) = mset (all_nodes m h)"
    using mset_concat_remove [OF p] by (simp add: all_nodes_def no nn no0 del: mset_concat)
  have dist: "distinct (map addr (all_nodes m' h'))"
    using ms ok(3) by (rule distinct_addr_add)
  from ok(4) b(1,2) have c: "\<forall>j < length sl. j < migrate_pos m \<longrightarrow> sl ! j = []"
    by (simp add: cursor_ok_def slots_of_def)
  have "\<forall>j < length sl. j < migrate_pos m \<longrightarrow> ?sl ! j = []"
  proof (intro allI impI)
    fix j assume j: "j < length sl" "j < migrate_pos m"
    with c have "sl ! j = []" by blast
    with p(2) have "j \<noteq> p" by auto
    with \<open>sl ! j = []\<close> show "?sl ! j = []" by simp
  qed
  then have cur: "cursor_ok m' h'"
    using b(1) by (simp add: cursor_ok_def slots_of_def m' h')
  show "hmap_inv m' h'"
    using hk okn oko dist cur ne b(1) by (simp add: hmap_inv_def) (simp add: m')
  show "HMap_size m' + 1 = HMap_size m"
    using removed_size [OF b(3) p] by (simp add: HMap_size_def m')
qed

subsection \<open>lookup and hm_delete\<close>

lemma nth_in_nodes:
  assumes "tab t = Some a" "cells h a = Some sl" "p < length sl" "i < length (sl ! p)"
  shows "sl ! p ! i \<in> set (nodes_of t h)"
proof -
  have "sl ! p ! i \<in> set (sl ! p)" using assms(4) by simp
  moreover have "sl ! p \<in> set sl" using assms(3) by simp
  ultimately have "sl ! p ! i \<in> set (concat sl)" by auto
  then show ?thesis using assms(1,2) by (simp add: nodes_of_live)
qed

lemma HMap_lookup_inv:
  assumes inv: "hmap_inv m h"
  shows "\<exists>r m' h' k. HMap_lookup key eq m h = Some (r, m', h') \<and>
           help_rehashing m h = Some (m', h') \<and> hmap_inv m' h' \<and>
           helped k m h m' h' \<and> k \<le> kRehasingWork \<and>
           (case r of
              None \<Rightarrow> \<forall>n \<in> set (all_nodes m' h'). \<not> matches eq key n
            | Some x \<Rightarrow> matches eq key x \<and>
                (x \<in> set (nodes_of (newer m') h') \<or>
                 (\<forall>y \<in> set (nodes_of (newer m') h'). \<not> matches eq key y) \<and>
                 x \<in> set (nodes_of (older m') h')))"
proof -
  from help_rehashing_inv [OF inv] obtain m1 h1 k where
    hr: "help_rehashing m h = Some (m1, h1)" and inv1: "hmap_inv m1 h1" and
    hp: "helped k m h m1 h1" "k \<le> kRehasingWork"
    by blast
  from inv1 have okn: "tab_ok (newer m1) h1" and oko: "tab_ok (older m1) h1"
    by (simp_all add: hmap_inv_def)
  have "\<exists>r. HMap_lookup key eq m h = Some (r, m1, h1) \<and>
          (case r of
             None \<Rightarrow> \<forall>n \<in> set (all_nodes m1 h1). \<not> matches eq key n
           | Some x \<Rightarrow> matches eq key x \<and>
                (x \<in> set (nodes_of (newer m1) h1) \<or>
                 (\<forall>y \<in> set (nodes_of (newer m1) h1). \<not> matches eq key y) \<and>
                 x \<in> set (nodes_of (older m1) h1)))"
    using okn
  proof (cases rule: HTab_lookup_cases [where key = key and eq = eq])
    case (hit p i a sl)
    have "deref (Link p i) (newer m1) h1 = Some (sl ! p ! i)"
      using hit(2,3,5,6) by (rule deref_eq)
    then have "HMap_lookup key eq m h = Some (Some (sl ! p ! i), m1, h1)"
      using hr hit(1) by (simp add: HMap_lookup_def)
    moreover have "sl ! p ! i \<in> set (nodes_of (newer m1) h1)"
      using hit(2,3,5,6) by (rule nth_in_nodes)
    ultimately show ?thesis using hit(7,8) by (simp add: matches_def)
  next
    case miss
    note missn = this
    have nomatch: "\<forall>y \<in> set (nodes_of (newer m1) h1). \<not> matches eq key y"
      using HTab_lookup_miss [OF okn missn] by (auto simp: matches_def)
    from oko show ?thesis
    proof (cases rule: HTab_lookup_cases [where key = key and eq = eq])
      case (hit p i a sl)
      have "deref (Link p i) (older m1) h1 = Some (sl ! p ! i)"
        using hit(2,3,5,6) by (rule deref_eq)
      then have "HMap_lookup key eq m h = Some (Some (sl ! p ! i), m1, h1)"
        using hr missn hit(1) by (simp add: HMap_lookup_def)
      moreover have "sl ! p ! i \<in> set (nodes_of (older m1) h1)"
        using hit(2,3,5,6) by (rule nth_in_nodes)
      ultimately show ?thesis using hit(7,8) nomatch by (simp add: matches_def)
    next
      case miss
      have "HMap_lookup key eq m h = Some (None, m1, h1)"
        using hr missn miss by (simp add: HMap_lookup_def)
      moreover have "\<forall>n \<in> set (all_nodes m1 h1). \<not> matches eq key n"
        using nomatch HTab_lookup_miss [OF oko miss]
        by (auto simp: all_nodes_def matches_def)
      ultimately show ?thesis by simp
    qed
  qed
  with hr inv1 hp show ?thesis by blast
qed

lemma hm_delete_inv:
  assumes inv: "hmap_inv m h"
  shows "\<exists>r m' h' m1 h1 k. hm_delete key eq m h = Some (r, m', h') \<and>
           help_rehashing m h = Some (m1, h1) \<and> hmap_inv m1 h1 \<and>
           helped k m h m1 h1 \<and> k \<le> kRehasingWork \<and> hmap_inv m' h' \<and>
           tab (newer m') = tab (newer m1) \<and> mask_f (newer m') = mask_f (newer m1) \<and>
           tab (older m') = tab (older m1) \<and> mask_f (older m') = mask_f (older m1) \<and>
           migrate_pos m' = migrate_pos m1 \<and>
           (case r of
              None \<Rightarrow> m' = m1 \<and> h' = h1 \<and> (\<forall>n \<in> set (all_nodes m1 h1). \<not> matches eq key n)
            | Some x \<Rightarrow> matches eq key x \<and>
                add_mset x (mset (all_nodes m' h')) = mset (all_nodes m1 h1) \<and>
                HMap_size m' + 1 = HMap_size m1)"
proof -
  from help_rehashing_inv [OF inv] obtain m1 h1 k where
    hr: "help_rehashing m h = Some (m1, h1)" and inv1: "hmap_inv m1 h1" and
    hp: "helped k m h m1 h1" "k \<le> kRehasingWork"
    by blast
  from inv1 have okn: "tab_ok (newer m1) h1" and oko: "tab_ok (older m1) h1"
    by (simp_all add: hmap_inv_def)
  have "\<exists>r m' h'. hm_delete key eq m h = Some (r, m', h') \<and> hmap_inv m' h' \<and>
           tab (newer m') = tab (newer m1) \<and> mask_f (newer m') = mask_f (newer m1) \<and>
           tab (older m') = tab (older m1) \<and> mask_f (older m') = mask_f (older m1) \<and>
           migrate_pos m' = migrate_pos m1 \<and>
           (case r of
              None \<Rightarrow> m' = m1 \<and> h' = h1 \<and> (\<forall>n \<in> set (all_nodes m1 h1). \<not> matches eq key n)
            | Some x \<Rightarrow> matches eq key x \<and>
                add_mset x (mset (all_nodes m' h')) = mset (all_nodes m1 h1) \<and>
                HMap_size m' + 1 = HMap_size m1)"
    using okn
  proof (cases rule: HTab_lookup_cases [where key = key and eq = eq])
    case (hit p i a sl)
    let ?m = "m1\<lparr>newer := (newer m1)\<lparr>size_f := size_f (newer m1) - 1\<rparr>\<rparr>"
    let ?h = "h1\<lparr>cells := (cells h1)(a \<mapsto> sl[p := take i (sl ! p) @ drop (Suc i) (sl ! p)])\<rparr>"
    have "HTab_detach (Link p i) (newer m1) h1 =
            Some (sl ! p ! i, (newer m1)\<lparr>size_f := size_f (newer m1) - 1\<rparr>, ?h)"
      using hit(2,3,5,6) removed_size [OF hit(4,5,6)] by (rule HTab_detach_eq)
    then have "hm_delete key eq m h = Some (Some (sl ! p ! i), ?m, ?h)"
      using hr hit(1) by (simp add: hm_delete_def)
    moreover note detach_newer_inv [OF inv1 hit(2,3,4,5,6) refl refl]
    ultimately show ?thesis using hit(7,8) by (simp add: matches_def)
  next
    case miss
    note missn = this
    from oko show ?thesis
    proof (cases rule: HTab_lookup_cases [where key = key and eq = eq])
      case (hit p i b sl)
      let ?m = "m1\<lparr>older := (older m1)\<lparr>size_f := size_f (older m1) - 1\<rparr>\<rparr>"
      let ?h = "h1\<lparr>cells := (cells h1)(b \<mapsto> sl[p := take i (sl ! p) @ drop (Suc i) (sl ! p)])\<rparr>"
      have "HTab_detach (Link p i) (older m1) h1 =
              Some (sl ! p ! i, (older m1)\<lparr>size_f := size_f (older m1) - 1\<rparr>, ?h)"
        using hit(2,3,5,6) removed_size [OF hit(4,5,6)] by (rule HTab_detach_eq)
      then have "hm_delete key eq m h = Some (Some (sl ! p ! i), ?m, ?h)"
        using hr missn hit(1) by (simp add: hm_delete_def)
      moreover note detach_older_inv [OF inv1 hit(2,3,4,5,6) refl refl]
      ultimately show ?thesis using hit(7,8) by (simp add: matches_def)
    next
      case miss
      have "hm_delete key eq m h = Some (None, m1, h1)"
        using hr missn miss by (simp add: hm_delete_def)
      moreover have "\<forall>n \<in> set (all_nodes m1 h1). \<not> matches eq key n"
        using HTab_lookup_miss [OF okn missn] HTab_lookup_miss [OF oko miss]
        by (auto simp: all_nodes_def matches_def)
      ultimately show ?thesis using inv1 by simp
    qed
  qed
  with hr inv1 hp show ?thesis by blast
qed

subsection \<open>insert\<close>

lemma concat_replicate_Nil [simp]: "concat (replicate n []) = []"
  by (induction n) simp_all

lemma HTab_init_eq:
  assumes "n = 2 ^ k"
  shows "HTab_init n t h =
     Some (t\<lparr>tab := Some (brk h), mask_f := n - 1, size_f := 0\<rparr>,
           h\<lparr>cells := (cells h)(brk h \<mapsto> replicate n []), brk := Suc (brk h)\<rparr>)"
  using assms pow2_assert [of k] by (simp add: HTab_init_def calloc_def)

lemma slots_ok_fresh:
  assumes "2 \<le> k"
  shows "slots_ok (t\<lparr>tab := p, mask_f := 2 ^ k - 1, size_f := 0\<rparr>) (replicate (2 ^ k) [])"
  using assms by (auto simp: slots_ok_def)

lemma live_below_brk: "heap_ok h \<Longrightarrow> cells h a = Some sl \<Longrightarrow> a < brk h"
  by (rule ccontr) (simp add: heap_ok_def not_less)

lemma heap_ok_calloc:
  "heap_ok h \<Longrightarrow> heap_ok (h\<lparr>cells := (cells h)(brk h \<mapsto> sl), brk := Suc (brk h)\<rparr>)"
  by (simp add: heap_ok_def)

lemma lazy_init_inv:
  assumes inv: "hmap_inv m h" and null: "tab (newer m) = None"
    and n1: "n1 = (newer m)\<lparr>tab := Some (brk h), mask_f := 3, size_f := 0\<rparr>"
    and h1: "h1 = h\<lparr>cells := (cells h)(brk h \<mapsto> replicate 4 []), brk := Suc (brk h)\<rparr>"
  shows "HTab_init 4 (newer m) h = Some (n1, h1)"
    and "hmap_inv (m\<lparr>newer := n1\<rparr>) h1"
    and "all_nodes (m\<lparr>newer := n1\<rparr>) h1 = []" and "all_nodes m h = []"
    and "tab (older m) = None"
proof -
  show "HTab_init 4 (newer m) h = Some (n1, h1)"
    using HTab_init_eq [where n = 4 and k = 2 and t = "newer m" and h = h] by (simp add: n1 h1)
  from inv null show o: "tab (older m) = None" by (auto simp: hmap_inv_def)
  from inv have ok: "heap_ok h" "tab_ok (older m) h" by (simp_all add: hmap_inv_def)
  have "slots_ok n1 (replicate 4 [])"
    using slots_ok_fresh [where k = 2 and t = "newer m" and p = "Some (brk h)"] by (simp add: n1)
  then have okn: "tab_ok n1 h1" by (simp add: tab_ok_def n1 h1)
  have oko: "tab_ok (older m) h1" using ok(2) o by (simp add: tab_ok_def)
  have hk: "heap_ok h1" using ok(1) unfolding h1 by (rule heap_ok_calloc)
  show a: "all_nodes (m\<lparr>newer := n1\<rparr>) h1 = []"
    using o by (simp add: all_nodes_def nodes_of_none) (simp add: nodes_of_def slots_of_def n1 h1)
  show "all_nodes m h = []"
    using o null by (simp add: all_nodes_def nodes_of_none)
  have "cursor_ok (m\<lparr>newer := n1\<rparr>) h1"
    using o by (simp add: cursor_ok_def slots_of_def)
  then show "hmap_inv (m\<lparr>newer := n1\<rparr>) h1"
    using hk okn oko o a by (simp add: hmap_inv_def)
qed

lemma insert_newer_inv:
  assumes inv: "hmap_inv m h" and a: "tab (newer m) = Some a"
    and fresh: "addr node \<notin> addr ` set (all_nodes m h)"
  shows "\<exists>n2 h2. HTab_insert node (newer m) h = Some (n2, h2) \<and>
           n2 = (newer m)\<lparr>size_f := size_f (newer m) + 1\<rparr> \<and>
           hmap_inv (m\<lparr>newer := n2\<rparr>) h2 \<and>
           mset (all_nodes (m\<lparr>newer := n2\<rparr>) h2) = add_mset node (mset (all_nodes m h)) \<and>
           brk h2 = brk h"
proof -
  from inv have ok: "heap_ok h" "tab_ok (newer m) h" "tab_ok (older m) h"
    "distinct (map addr (all_nodes m h))" "cursor_ok m h"
    and ne: "tab (older m) \<noteq> Some a"
    using a by (auto simp: hmap_inv_def)
  from ok(2) a obtain sl where sl: "cells h a = Some sl" "slots_ok (newer m) sl"
    by (auto simp: tab_ok_Some)
  define p where "p = get_position (newer m) (hcode node)"
  define n2 where "n2 = (newer m)\<lparr>size_f := size_f (newer m) + 1\<rparr>"
  define h2 where "h2 = h\<lparr>cells := (cells h)(a \<mapsto> sl[p := node # sl ! p])\<rparr>"
  define m2 where "m2 = m\<lparr>newer := n2\<rparr>"
  have p: "p < length sl" unfolding p_def using sl(2) by (rule slots_ok_position)
  have ins: "HTab_insert node (newer m) h = Some (n2, h2)"
    unfolding n2_def h2_def p_def using a sl(1) p [unfolded p_def] by (rule HTab_insert_eq)
  have hk: "heap_ok h2" unfolding h2_def using ok(1) sl(1) by (rule heap_ok_update)
  have "slots_ok n2 (sl[p := node # sl ! p])"
    unfolding n2_def using sl(2) p_def by (rule slots_ok_insert)
  then have okn: "tab_ok (newer m2) h2"
    using a by (simp add: tab_ok_def m2_def n2_def h2_def)
  have oko: "tab_ok (older m2) h2"
    using ok(3) ne by (simp add: tab_ok_other m2_def h2_def)
  have no: "nodes_of (older m2) h2 = nodes_of (older m) h"
    using ne by (simp add: nodes_of_other m2_def h2_def)
  have nn: "nodes_of (newer m2) h2 = concat (sl[p := node # sl ! p])"
    using a by (simp add: nodes_of_update m2_def n2_def h2_def)
  have nn0: "nodes_of (newer m) h = concat sl"
    using a sl(1) by (rule nodes_of_live)
  have ms: "mset (all_nodes m2 h2) = add_mset node (mset (all_nodes m h))"
    using mset_concat_cons [OF p, of node]
    by (simp add: all_nodes_def no nn nn0 del: mset_concat)
  then have "mset (all_nodes m2 h2) = mset (node # all_nodes m h)" by simp
  from distinct_addr_mset [OF this] have dist: "distinct (map addr (all_nodes m2 h2))"
    using ok(4) fresh by simp
  have "slots_of (older m2) h2 = slots_of (older m) h"
    using ne by (auto simp: slots_of_def m2_def h2_def split: option.splits)
  then have cur: "cursor_ok m2 h2"
    using ok(5) by (simp add: cursor_ok_def m2_def split: option.splits)
  have "tab (newer m2) = Some a" "tab (older m2) = tab (older m)"
    using a by (simp_all add: m2_def n2_def)
  then have "hmap_inv m2 h2"
    using hk okn oko dist cur ne by (simp add: hmap_inv_def)
  moreover have "brk h2 = brk h" by (simp add: h2_def)
  ultimately show ?thesis using ins ms unfolding m2_def n2_def by blast
qed

lemma trigger_rehashing_inv:
  assumes inv: "hmap_inv m h" and o: "tab (older m) = None" and a: "tab (newer m) = Some a"
  shows "\<exists>m' h'. trigger_rehashing m h = Some (m', h') \<and> hmap_inv m' h' \<and>
           older m' = newer m \<and> tab (newer m') = Some (brk h) \<and>
           Suc (mask_f (newer m')) = 2 * Suc (mask_f (newer m)) \<and>
           size_f (newer m') = 0 \<and> migrate_pos m' = 0 \<and>
           all_nodes m' h' = all_nodes m h \<and> brk h' = Suc (brk h)"
proof -
  from inv have ok: "heap_ok h" "tab_ok (newer m) h" "distinct (map addr (all_nodes m h))"
    by (simp_all add: hmap_inv_def)
  from ok(2) a obtain sl where sl: "cells h a = Some sl" "slots_ok (newer m) sl"
    by (auto simp: tab_ok_Some)
  from sl(2) obtain k where k: "2 \<le> k" "Suc (mask_f (newer m)) = 2 ^ k"
    by (auto simp: slots_ok_def)
  define n where "n = (mask_f (newer m) + 1) * 2"
  have n: "n = 2 ^ Suc k" using k(2) by (simp add: n_def)
  define t where "t = (newer m)\<lparr>tab := Some (brk h), mask_f := n - 1, size_f := 0\<rparr>"
  define h' where "h' = h\<lparr>cells := (cells h)(brk h \<mapsto> replicate n []), brk := Suc (brk h)\<rparr>"
  define m' where "m' = m\<lparr>older := newer m, newer := t, migrate_pos := 0\<rparr>"
  have "HTab_init n (newer m) h = Some (t, h')"
    unfolding t_def h'_def using n by (rule HTab_init_eq)
  then have tr: "trigger_rehashing m h = Some (m', h')"
    using o by (simp add: trigger_rehashing_def Let_def m'_def n_def)
  have ab: "a < brk h" using ok(1) sl(1) by (rule live_below_brk)
  have hk: "heap_ok h'" unfolding h'_def using ok(1) by (rule heap_ok_calloc)
  have "slots_ok ((newer m)\<lparr>tab := Some (brk h), mask_f := 2 ^ Suc k - 1, size_f := 0\<rparr>)
          (replicate (2 ^ Suc k) [])"
    using k(1) by (intro slots_ok_fresh) simp
  then have "slots_ok t (replicate n [])" using n by (simp add: t_def)
  then have okn: "tab_ok (newer m') h'" by (simp add: tab_ok_def m'_def t_def h'_def)
  have oko: "tab_ok (older m') h'"
    using a sl ab by (simp add: tab_ok_def m'_def h'_def)
  have nn: "nodes_of (newer m') h' = []"
    by (simp add: nodes_of_def slots_of_def m'_def t_def h'_def)
  have no: "nodes_of (older m') h' = nodes_of (newer m) h"
    using a ab by (simp add: nodes_of_def slots_of_def m'_def h'_def)
  have al: "all_nodes m' h' = all_nodes m h"
    using o by (simp add: all_nodes_def nn no nodes_of_none)
  have cur: "cursor_ok m' h'" by (simp add: cursor_ok_def m'_def split: option.splits)
  have tabs: "tab (newer m') = Some (brk h)" "older m' = newer m" "migrate_pos m' = 0"
    "size_f (newer m') = 0"
    by (simp_all add: m'_def t_def)
  have "hmap_inv m' h'"
    using hk okn oko al ok(3) cur a ab tabs(1,2) by (simp add: hmap_inv_def)
  moreover have "Suc (mask_f (newer m')) = 2 * Suc (mask_f (newer m))"
    using n k(2) by (simp add: m'_def t_def)
  moreover have "brk h' = Suc (brk h)" by (simp add: h'_def)
  ultimately show ?thesis using tr al tabs by blast
qed

text \<open>\<open>insert\<close> in three stages: the node is linked in the newer table, which is
  allocated first when it is null; a cycle starts when the older table is null and the
  load is at the threshold; the bounded migration step runs from the state \<open>(m3, h3)\<close>.\<close>

lemma HMap_insert_stages:
  assumes inv: "hmap_inv m h" and fresh: "addr node \<notin> addr ` set (all_nodes m h)"
  shows "\<exists>m3 h3. HMap_insert node m h = help_rehashing m3 h3 \<and> hmap_inv m3 h3 \<and>
           mset (all_nodes m3 h3) = add_mset node (mset (all_nodes m h)) \<and>
           HMap_size m3 = HMap_size m + 1 \<and>
           (if tab (older m) = None \<and> tab (newer m) \<noteq> None \<and>
               (mask_f (newer m) + 1) * kMaxLoadFactor \<le> size_f (newer m) + 1
            then tab (older m3) = tab (newer m) \<and> mask_f (older m3) = mask_f (newer m) \<and>
                 size_f (older m3) = size_f (newer m) + 1 \<and>
                 tab (newer m3) = Some (brk h) \<and> size_f (newer m3) = 0 \<and>
                 Suc (mask_f (newer m3)) = 2 * Suc (mask_f (newer m)) \<and> migrate_pos m3 = 0
            else older m3 = older m \<and> migrate_pos m3 = migrate_pos m \<and>
                 size_f (newer m3) = size_f (newer m) + 1 \<and>
                 tab (newer m3) = (if tab (newer m) = None then Some (brk h) else tab (newer m)) \<and>
                 mask_f (newer m3) = (if tab (newer m) = None then 3 else mask_f (newer m)))"
proof -
  have "\<exists>n1 h1 a. (if tab (newer m) = None then HTab_init 4 (newer m) h else Some (newer m, h))
            = Some (n1, h1) \<and> hmap_inv (m\<lparr>newer := n1\<rparr>) h1 \<and> tab n1 = Some a \<and>
          mset (all_nodes (m\<lparr>newer := n1\<rparr>) h1) = mset (all_nodes m h) \<and>
          size_f n1 = size_f (newer m) \<and>
          tab n1 = (if tab (newer m) = None then Some (brk h) else tab (newer m)) \<and>
          mask_f n1 = (if tab (newer m) = None then 3 else mask_f (newer m)) \<and>
          (tab (newer m) \<noteq> None \<longrightarrow> brk h1 = brk h)"
  proof (cases "tab (newer m)")
    case None
    note l = lazy_init_inv [OF inv None refl refl]
    have "size_f (newer m) = 0" using inv None by (simp add: hmap_inv_def tab_ok_def)
    then show ?thesis using None l(1,2,3,4) by simp
  next
    case (Some a)
    then show ?thesis using inv by simp
  qed
  then obtain n1 h1 a where
    e1: "(if tab (newer m) = None then HTab_init 4 (newer m) h else Some (newer m, h)) = Some (n1, h1)"
    and inv1: "hmap_inv (m\<lparr>newer := n1\<rparr>) h1" and a: "tab n1 = Some a"
    and ms1: "mset (all_nodes (m\<lparr>newer := n1\<rparr>) h1) = mset (all_nodes m h)"
    and n1: "size_f n1 = size_f (newer m)"
      "tab n1 = (if tab (newer m) = None then Some (brk h) else tab (newer m))"
      "mask_f n1 = (if tab (newer m) = None then 3 else mask_f (newer m))"
      "tab (newer m) \<noteq> None \<longrightarrow> brk h1 = brk h"
    by blast
  have fresh1: "addr node \<notin> addr ` set (all_nodes (m\<lparr>newer := n1\<rparr>) h1)"
    using fresh mset_eq_setD [OF ms1] by simp
  from insert_newer_inv [OF inv1 _ fresh1] a obtain n2 h2 where
    e2: "HTab_insert node n1 h1 = Some (n2, h2)"
    and n2: "n2 = n1\<lparr>size_f := size_f n1 + 1\<rparr>"
    and inv2: "hmap_inv (m\<lparr>newer := n2\<rparr>) h2"
    and ms2: "mset (all_nodes (m\<lparr>newer := n2\<rparr>) h2) = add_mset node (mset (all_nodes m h))"
    and b2: "brk h2 = brk h1"
    using ms1 by auto
  define m2 where "m2 = m\<lparr>newer := n2\<rparr>"
  have m2: "older m2 = older m" "newer m2 = n2" "migrate_pos m2 = migrate_pos m"
    by (simp_all add: m2_def)
  have sz2: "HMap_size m2 = HMap_size m + 1"
    using n1(1) by (simp add: HMap_size_def m2 n2)
  define due where "due = (tab (older m) = None \<and> tab (newer m) \<noteq> None \<and>
               (mask_f (newer m) + 1) * kMaxLoadFactor \<le> size_f (newer m) + 1)"
  have thr: "tab (newer m) = None \<Longrightarrow> \<not> (mask_f n2 + 1) * kMaxLoadFactor \<le> size_f n2"
    using n1 inv by (simp add: n2 kMaxLoadFactor_def hmap_inv_def tab_ok_def)
  show ?thesis
  proof (cases due)
    case True
    then have d: "tab (older m) = None" "tab (newer m) \<noteq> None"
      "(mask_f (newer m) + 1) * kMaxLoadFactor \<le> size_f (newer m) + 1"
      by (simp_all add: due_def)
    have so: "size_f (older m) = 0" using inv d(1) by (simp add: hmap_inv_def tab_ok_def)
    have a2: "tab (newer m2) = Some a" using a by (simp add: m2 n2)
    from trigger_rehashing_inv [OF inv2 [folded m2_def] _ a2] d(1) obtain m3 h3 where
      tr: "trigger_rehashing m2 h2 = Some (m3, h3)" and inv3: "hmap_inv m3 h3"
      and r: "older m3 = newer m2" "tab (newer m3) = Some (brk h2)"
        "Suc (mask_f (newer m3)) = 2 * Suc (mask_f (newer m2))"
        "size_f (newer m3) = 0" "migrate_pos m3 = 0" "all_nodes m3 h3 = all_nodes m2 h2"
      by (auto simp: m2)
    have c: "tab (older m2) = None" "(mask_f (newer m2) + 1) * kMaxLoadFactor \<le> size_f (newer m2)"
      using d n1 by (auto simp: m2 n2)
    have e3: "(let m2 = m\<lparr>newer := n2\<rparr> in
          if tab (older m2) = None
          then (let threshold = (mask_f (newer m2) + 1) * kMaxLoadFactor in
                if threshold \<le> size_f (newer m2) then trigger_rehashing m2 h2
                else Some (m2, h2))
          else Some (m2, h2)) = Some (m3, h3)"
      unfolding Let_def m2_def [symmetric] using c tr by simp
    have f1: "HMap_insert node m h = help_rehashing m3 h3"
      by (simp only: HMap_insert_def e1 e2 e3 bind.bind_lunit prod.case)
    have f2: "mset (all_nodes m3 h3) = add_mset node (mset (all_nodes m h))"
      using ms2 r(6) by (simp add: m2_def)
    have f3: "HMap_size m3 = HMap_size m + 1"
      using sz2 r(1,4) so by (simp add: HMap_size_def m2(1))
    have f4: "tab (older m3) = tab (newer m) \<and> mask_f (older m3) = mask_f (newer m) \<and>
                 size_f (older m3) = size_f (newer m) + 1 \<and>
                 tab (newer m3) = Some (brk h) \<and> size_f (newer m3) = 0 \<and>
                 Suc (mask_f (newer m3)) = 2 * Suc (mask_f (newer m)) \<and> migrate_pos m3 = 0"
      using r d n1 b2 by (simp add: m2 n2)
    show ?thesis unfolding due_def [symmetric]
      by (rule exI [of _ m3], rule exI [of _ h3]) (simp add: True f1 f2 f3 f4 inv3)
  next
    case False
    have nd: "\<not> (tab (older m2) = None \<and> (mask_f (newer m2) + 1) * kMaxLoadFactor \<le> size_f (newer m2))"
      using False thr n1 by (auto simp: due_def m2 n2)
    have e3: "(let m2 = m\<lparr>newer := n2\<rparr> in
          if tab (older m2) = None
          then (let threshold = (mask_f (newer m2) + 1) * kMaxLoadFactor in
                if threshold \<le> size_f (newer m2) then trigger_rehashing m2 h2
                else Some (m2, h2))
          else Some (m2, h2)) = Some (m2, h2)"
      unfolding Let_def m2_def [symmetric] using nd by auto
    have f1: "HMap_insert node m h = help_rehashing m2 h2"
      by (simp only: HMap_insert_def e1 e2 e3 bind.bind_lunit prod.case)
    have f4: "older m2 = older m \<and> migrate_pos m2 = migrate_pos m \<and>
                 size_f (newer m2) = size_f (newer m) + 1 \<and>
                 tab (newer m2) = (if tab (newer m) = None then Some (brk h) else tab (newer m)) \<and>
                 mask_f (newer m2) = (if tab (newer m) = None then 3 else mask_f (newer m))"
      using n1 by (simp add: m2 n2)
    show ?thesis unfolding due_def [symmetric]
      by (rule exI [of _ m2], rule exI [of _ h2])
        (simp add: False f1 f4 sz2 inv2 [folded m2_def] ms2 [folded m2_def])
  qed
qed

section \<open>Reachable states are well formed\<close>

lemma hmap_inv_start: "heap_ok h \<Longrightarrow> hmap_inv HMap_empty h"
  by (simp add: hmap_inv_def HMap_empty_def HTab_empty_def tab_ok_def all_nodes_def
      nodes_of_def slots_of_def cursor_ok_def)

lemma helped_nodes:
  assumes "helped k m h m' h'"
  shows "mset (all_nodes m' h') = mset (all_nodes m h)"
proof -
  from assms obtain M where
    "mset (nodes_of (older m) h) = mset (nodes_of (older m') h') + M"
    "mset (nodes_of (newer m') h') = mset (nodes_of (newer m) h) + M"
    unfolding helped_def by blast
  then show ?thesis by (simp add: all_nodes_def)
qed

lemma helped_size: "helped k m h m' h' \<Longrightarrow> HMap_size m' = HMap_size m"
  by (simp add: helped_def HMap_size_def)

lemma helped_newer:
  "helped k m h m' h' \<Longrightarrow> tab (newer m') = tab (newer m) \<and> mask_f (newer m') = mask_f (newer m)"
  by (simp add: helped_def)

lemma HMap_insert_inv:
  assumes inv: "hmap_inv m h" and fresh: "addr node \<notin> addr ` set (all_nodes m h)"
  shows "\<exists>m' h'. HMap_insert node m h = Some (m', h') \<and> hmap_inv m' h' \<and>
           mset (all_nodes m' h') = add_mset node (mset (all_nodes m h)) \<and>
           HMap_size m' = HMap_size m + 1"
proof -
  from HMap_insert_stages [OF inv fresh] obtain m3 h3 where
    s: "HMap_insert node m h = help_rehashing m3 h3" "hmap_inv m3 h3"
    "mset (all_nodes m3 h3) = add_mset node (mset (all_nodes m h))"
    "HMap_size m3 = HMap_size m + 1"
    by blast
  from help_rehashing_inv [OF s(2)] obtain m' h' k where
    h: "help_rehashing m3 h3 = Some (m', h')" "hmap_inv m' h'" "helped k m3 h3 m' h'"
    by blast
  show ?thesis
    using s(1,3,4) h(1,2) helped_nodes [OF h(3)] helped_size [OF h(3)] by simp
qed

lemma reachable_inv:
  "reachable L m h \<Longrightarrow> hmap_inv m h \<and> mset (all_nodes m h) = L"
proof (induction rule: reachable.induct)
  case (start h)
  then show ?case
    by (simp add: hmap_inv_start) (simp add: all_nodes_def HMap_empty_def)
next
  case (insert L m h node m' h')
  then have inv: "hmap_inv m h" and L: "mset (all_nodes m h) = L" by simp_all
  from L have "set (all_nodes m h) = set_mset L" by (metis set_mset_mset)
  with insert.hyps(2) have "addr node \<notin> addr ` set (all_nodes m h)" by simp
  from HMap_insert_inv [OF inv this] insert.hyps(3) L show ?case by auto
next
  case (lookup L m h key eq r m' h')
  then have inv: "hmap_inv m h" and L: "mset (all_nodes m h) = L" by simp_all
  from HMap_lookup_inv [OF inv, of key eq] lookup.hyps(2) obtain k where
    "hmap_inv m' h'" "helped k m h m' h'" by auto
  with L helped_nodes show ?case by simp
next
  case (delete_hit L m h key eq x m' h')
  then have inv: "hmap_inv m h" and L: "mset (all_nodes m h) = L" by simp_all
  from hm_delete_inv [OF inv, of key eq] delete_hit.hyps(2) obtain m1 h1 k where
    d: "helped k m h m1 h1" "hmap_inv m' h'"
    "add_mset x (mset (all_nodes m' h')) = mset (all_nodes m1 h1)"
    by auto
  from d(3) helped_nodes [OF d(1)] L have "add_mset x (mset (all_nodes m' h')) = L" by simp
  then have "mset (all_nodes m' h') = L - {#x#}" by auto
  with d(2) show ?case by simp
next
  case (delete_miss L m h key eq m' h')
  then have inv: "hmap_inv m h" and L: "mset (all_nodes m h) = L" by simp_all
  from hm_delete_inv [OF inv, of key eq] delete_miss.hyps(2) obtain k where
    d: "helped k m h m' h'" "hmap_inv m' h'"
    by auto
  with L helped_nodes show ?case by simp
qed

section \<open>Concrete states\<close>

lemma rehash_loop_done: "size_f (older m) = 0 \<Longrightarrow> rehash_loop w m h = Some (m, h)"
  by (subst rehash_loop.simps) simp

lemma replicate_4: "replicate 4 x = [x, x, x, x]"
  by (simp add: numeral_eq_Suc)

lemma insert_one: "HMap_insert (node_of 1) HMap_empty heap_empty = Some (one_map, one_heap)"
  by (simp add: HMap_insert_def HMap_empty_def heap_empty_def HTab_empty_def HTab_init_def
      calloc_def HTab_insert_def get_position_def read_slot_def write_slot_def slots_of_def
      node_of_def kMaxLoadFactor_def help_rehashing_def rehash_loop_done one_map_def one_heap_def replicate_4)

lemma heap_ok_empty: "heap_ok heap_empty"
  by (simp add: heap_ok_def heap_empty_def)

lemma reachable_one: "reachable {#node_of 1#} one_map one_heap"
  using reachable.insert [OF reachable.start [OF heap_ok_empty] _ insert_one] by simp

section \<open>The migration loop takes the heads of the chain at the cursor\<close>

lemma rehash_iter_head:
  assumes inv: "hmap_inv m h"
    and r: "read_slot (older m) h (migrate_pos m) = Some (x # rest)"
  shows "\<exists>m' h' old. rehash_iter w m h = Some (w + 1, m', h') \<and> hmap_inv m' h' \<and>
           moves 1 m h m' h' \<and> migrate_pos m' = migrate_pos m \<and>
           read_slot (older m') h' (migrate_pos m) = Some rest \<and>
           read_slot (newer m) h (get_position (newer m) (hcode x)) = Some old \<and>
           read_slot (newer m') h' (get_position (newer m) (hcode x)) = Some (x # old) \<and>
           mset (nodes_of (newer m') h') = add_mset x (mset (nodes_of (newer m) h))"
proof -
  from r obtain b sb where b: "tab (older m) = Some b" "cells h b = Some sb"
    and c: "migrate_pos m < length sb" and n: "sb ! migrate_pos m = x # rest"
    by (auto simp: read_slot_def slots_of_def split: option.splits if_splits)
  from inv b have okb: "slots_ok (older m) sb" by (auto simp: hmap_inv_def tab_ok_def)
  have "0 < length (x # rest)" by simp
  then have "0 < length (sb ! migrate_pos m)" using n by simp
  from removed_size [OF okb c this] have sz: "0 < size_f (older m)" .
  from inv b(1) obtain a where a: "tab (newer m) = Some a" "a \<noteq> b"
    by (auto simp: hmap_inv_def)
  with inv obtain sa where sa: "cells h a = Some sa" "slots_ok (newer m) sa"
    by (auto simp: hmap_inv_def tab_ok_Some)
  define p where "p = get_position (newer m) (hcode x)"
  define m' where "m' = m\<lparr>newer := (newer m)\<lparr>size_f := size_f (newer m) + 1\<rparr>,
                    older := (older m)\<lparr>size_f := size_f (older m) - 1\<rparr>\<rparr>"
  define h' where "h' = h\<lparr>cells := (cells h)
               (b \<mapsto> sb[migrate_pos m := rest], a \<mapsto> sa[p := x # sa ! p])\<rparr>"
  have p: "p < length sa" unfolding p_def using sa(2) by (rule slots_ok_position)
  have it: "rehash_iter w m h = Some (w + 1, m', h')"
    unfolding m'_def h'_def p_def
    using b c n sz a(1) a(2) sa(1) p [unfolded p_def] by (rule rehash_iter_move)
  note mv = rehash_iter_move_inv [OF inv a(1) sa b okb a(2) c n m'_def h'_def [unfolded p_def]]
  have "read_slot (older m') h' (migrate_pos m) = Some rest"
    using b(1) a(2) c by (simp add: read_slot_def slots_of_def m'_def h'_def)
  moreover have "read_slot (newer m) h p = Some (sa ! p)"
    using a(1) sa(1) p by (simp add: read_slot_def slots_of_def)
  moreover have "read_slot (newer m') h' p = Some (x # sa ! p)"
    using a(1) p by (simp add: read_slot_def slots_of_def m'_def h'_def)
  moreover have "mset (nodes_of (newer m') h') = add_mset x (mset (nodes_of (newer m) h))"
    using mset_concat_cons [OF p, of x] a(1) sa(1)
    by (simp add: nodes_of_def slots_of_def m'_def h'_def del: mset_concat)
  moreover have "migrate_pos m' = migrate_pos m" by (simp add: m'_def)
  ultimately show ?thesis using it mv unfolding p_def by blast
qed

lemma rehash_loop_heads:
  assumes "hmap_inv m h"
    and "read_slot (older m) h (migrate_pos m) = Some (xs @ ys)"
    and "ys \<noteq> []" and "w + length xs = kRehasingWork"
  shows "\<exists>m' h'. rehash_loop w m h = Some (m', h') \<and> hmap_inv m' h' \<and>
           moves (length xs) m h m' h' \<and> migrate_pos m' = migrate_pos m \<and>
           read_slot (older m') h' (migrate_pos m) = Some ys \<and>
           mset (nodes_of (newer m') h') = mset (nodes_of (newer m) h) + mset xs"
  using assms
proof (induction xs arbitrary: w m h)
  case Nil
  then have "rehash_loop w m h = Some (m, h)"
    by (subst rehash_loop.simps) simp
  with Nil show ?case by (simp add: moves_refl)
next
  case (Cons x xs)
  from Cons.prems(2) have r: "read_slot (older m) h (migrate_pos m) = Some (x # (xs @ ys))"
    by simp
  from rehash_iter_head [OF Cons.prems(1) r, of w] obtain m1 h1 where
    it: "rehash_iter w m h = Some (w + 1, m1, h1)" and inv1: "hmap_inv m1 h1"
    and mv1: "moves 1 m h m1 h1" and c1: "migrate_pos m1 = migrate_pos m"
    and r1: "read_slot (older m1) h1 (migrate_pos m) = Some (xs @ ys)"
    and n1: "mset (nodes_of (newer m1) h1) = add_mset x (mset (nodes_of (newer m) h))"
    by blast
  have w1: "(w + 1) + length xs = kRehasingWork" using Cons.prems(4) by simp
  from Cons.IH [OF inv1 r1 [folded c1] Cons.prems(3) w1] obtain m' h' where
    lp: "rehash_loop (w + 1) m1 h1 = Some (m', h')" and inv': "hmap_inv m' h'"
    and mv2: "moves (length xs) m1 h1 m' h'" and c2: "migrate_pos m' = migrate_pos m1"
    and r2: "read_slot (older m') h' (migrate_pos m1) = Some ys"
    and n2: "mset (nodes_of (newer m') h') = mset (nodes_of (newer m1) h1) + mset xs"
    by blast
  from mv1 have "size_f (older m1) + 1 = size_f (older m)" unfolding moves_def by blast
  then have go: "w < kRehasingWork \<and> 0 < size_f (older m)"
    using Cons.prems(4) by simp
  have "rehash_loop w m h = Some (m', h')"
    using go it lp by (subst rehash_loop.simps) simp
  moreover have "moves (length (x # xs)) m h m' h'"
    using moves_trans [OF mv1 mv2] by simp
  ultimately show ?case
    using inv' c1 c2 r2 n1 n2 by simp
qed

section \<open>A delete that empties the older table\<close>

lemma unat_of_nat_64: "unat (of_nat x :: 64 word) = x mod 2 ^ 64"
  by (simp add: unat_of_nat)

lemma late_node_position: "unat (hcode (late_node i)) AND (3::nat) = 0"
proof -
  have "unat (of_nat (4 * i) :: 64 word) = (4 * i) mod 2 ^ 64"
    by (rule unat_of_nat_64)
  moreover have "x AND (3::nat) = x mod 4" for x :: nat
    using take_bit_eq_mask [of 2 x] by (simp add: take_bit_eq_mod mask_eq_exp_minus_1)
  moreover have "(4 * i) mod 2 ^ 64 mod 4 = (4 * i) mod 4"
    by (rule mod_mod_cancel) simp
  ultimately show ?thesis by (simp add: late_node_def)
qed

lemma mid_inv: "hmap_inv (mid_map n) (mid_heap n)"
proof -
  have hk: "heap_ok (mid_heap n)" by (simp add: heap_ok_def mid_heap_def)
  have "slots_ok \<lparr>tab = Some 1, mask_f = 7, size_f = 0\<rparr> (replicate 8 [])"
    using slots_ok_fresh [where k = 3 and p = "Some 1" and t = "\<lparr>tab = Some 1, mask_f = 7, size_f = 0\<rparr>"]
    by simp
  then have okn: "tab_ok (newer (mid_map n)) (mid_heap n)"
    by (simp add: tab_ok_def mid_map_def mid_heap_def)
  have "\<forall>i < 4. \<forall>x \<in> set ([map late_node [0..<n], [], [], []] ! i).
          get_position \<lparr>tab = Some 0, mask_f = 3, size_f = n\<rparr> (hcode x) = i"
    using late_node_position by (auto simp: get_position_def less_Suc_eq numeral_eq_Suc)
  moreover have "Suc 3 = 2 ^ 2" by simp
  ultimately have "slots_ok \<lparr>tab = Some 0, mask_f = 3, size_f = n\<rparr> [map late_node [0..<n], [], [], []]"
    unfolding slots_ok_def by (intro conjI exI [of _ 2]) simp_all
  then have oko: "tab_ok (older (mid_map n)) (mid_heap n)"
    by (simp add: tab_ok_def mid_map_def mid_heap_def)
  have "map addr (map late_node [0..<n]) = [0..<n]"
    by (simp add: late_node_def comp_def map_idI)
  then have dist: "distinct (map addr (all_nodes (mid_map n) (mid_heap n)))"
    by (simp add: all_nodes_def nodes_of_def slots_of_def mid_map_def mid_heap_def)
  have cur: "cursor_ok (mid_map n) (mid_heap n)"
    by (simp add: cursor_ok_def slots_of_def mid_map_def mid_heap_def)
  show ?thesis
    using hk okn oko dist cur by (simp add: hmap_inv_def) (simp add: mid_map_def)
qed

lemma delete_last_of_older:
  "\<exists>m' h'. hm_delete (late_node 128) same_addr (mid_map 129) (mid_heap 129)
             = Some (Some (late_node 128), m', h') \<and>
           size_f (older m') = 0 \<and> tab (older m') = Some 0 \<and> mask_f (older m') = 3 \<and>
           cells h' 0 \<noteq> None"
proof -
  let ?m = "mid_map 129" and ?h = "mid_heap 129"
  let ?key = "late_node 128"
  have inv: "hmap_inv ?m ?h" by (rule mid_inv)
  have "[0..<129] = [0..<128] @ [128]"
    using upt_Suc_append [of 0 128] by simp
  then have r: "read_slot (older ?m) ?h (migrate_pos ?m) = Some (map late_node [0..<128] @ [?key])"
    by (simp add: read_slot_def slots_of_def mid_map_def mid_heap_def)
  have q: "0 + length (map late_node [0..<128]) = kRehasingWork"
    by (simp add: kRehasingWork_def)
  from rehash_loop_heads [OF inv r _ q] obtain m1 h1 where
    lp: "rehash_loop 0 ?m ?h = Some (m1, h1)" and inv1: "hmap_inv m1 h1"
    and mv: "moves (length (map late_node [0..<128])) ?m ?h m1 h1"
    and r1: "read_slot (older m1) h1 (migrate_pos ?m) = Some [?key]"
    and n1: "mset (nodes_of (newer m1) h1) =
               mset (nodes_of (newer ?m) ?h) + mset (map late_node [0..<128])"
    by blast
  from mv have o1: "tab (older m1) = Some 0" "mask_f (older m1) = 3" "size_f (older m1) = 1"
    unfolding moves_def by (auto simp: mid_map_def)
  have hr: "help_rehashing ?m ?h = Some (m1, h1)"
    using lp o1(3) by (simp add: help_rehashing_def)
  from inv1 have okn: "tab_ok (newer m1) h1" by (simp add: hmap_inv_def)
  have "nodes_of (newer ?m) ?h = []"
    by (simp add: nodes_of_def slots_of_def mid_map_def mid_heap_def)
  with n1 have "mset (nodes_of (newer m1) h1) = mset (map late_node [0..<128])" by simp
  then have sn: "set (nodes_of (newer m1) h1) = late_node ` {0..<128}"
    using mset_eq_setD by fastforce
  from okn have miss: "HTab_lookup ?key same_addr (newer m1) h1 = Some None"
  proof (cases rule: HTab_lookup_cases [where key = ?key and eq = same_addr])
    case miss
    then show ?thesis .
  next
    case (hit p i a sl)
    from nth_in_nodes [OF hit(2,3,5,6)] sn obtain j where
      "sl ! p ! i = late_node j" "j < 128" by auto
    with hit(8) show ?thesis by (simp add: same_addr_def late_node_def)
  qed
  from r1 o1(1) obtain sl where sl: "cells h1 0 = Some sl" "0 < length sl" "sl ! 0 = [?key]"
    by (auto simp: read_slot_def slots_of_def mid_map_def split: option.splits if_splits)
  have pos: "get_position (older m1) (hcode ?key) = 0"
    using late_node_position [of 128] by (simp add: get_position_def o1(2))
  have hit: "HTab_lookup ?key same_addr (older m1) h1 = Some (Some (Link 0 0))"
    using o1(1) sl by (simp add: HTab_lookup_def pos read_slot_def slots_of_def same_addr_def)
  have "HTab_detach (Link 0 0) (older m1) h1 =
          Some (sl ! 0 ! 0, (older m1)\<lparr>size_f := size_f (older m1) - 1\<rparr>,
                h1\<lparr>cells := (cells h1)(0 \<mapsto> sl[0 := take 0 (sl ! 0) @ drop (Suc 0) (sl ! 0)])\<rparr>)"
    using o1(1) sl(1,2) by (rule HTab_detach_eq) (simp_all add: sl(3) o1(3))
  then have "hm_delete ?key same_addr ?m ?h =
          Some (Some ?key, m1\<lparr>older := (older m1)\<lparr>size_f := 0\<rparr>\<rparr>,
                h1\<lparr>cells := (cells h1)(0 \<mapsto> sl[0 := []])\<rparr>)"
    using hr miss hit by (simp add: hm_delete_def sl(3) o1(3))
  then show ?thesis using o1 by simp
qed

section \<open>Traversal\<close>

lemma visit_chain_append:
  "visit_chain f (xs @ ys) c =
     (case visit_chain f xs c of
        (True, c') \<Rightarrow> visit_chain f ys c'
      | (False, c') \<Rightarrow> (False, c'))"
  by (induction xs arbitrary: c) (auto split: prod.splits bool.splits)

lemma foreach_from_live:
  assumes "tab t = Some a" "cells h a = Some sl" "length sl = Suc (mask_f t)" "mask_f t \<noteq> 0"
    and "i \<le> length sl"
  shows "foreach_from f t h i c = Some (visit_chain f (concat (drop i sl)) c)"
  using assms(5)
proof (induction "length sl - i" arbitrary: i c)
  case 0
  then have "\<not> i \<le> mask_f t" using assms(3) by simp
  then have "foreach_from f t h i c = Some (True, c)"
    by (subst foreach_from.simps) simp
  with 0 show ?case by simp
next
  case (Suc k)
  then have i: "i < length sl" by simp
  then have go: "mask_f t \<noteq> 0 \<and> i \<le> mask_f t" using assms(3,4) by simp
  have r: "read_slot t h i = Some (sl ! i)"
    using assms(1,2) i by (simp add: read_slot_def slots_of_def)
  have d: "drop i sl = sl ! i # drop (Suc i) sl"
    using i by (simp add: Cons_nth_drop_Suc)
  have k: "k = length sl - Suc i" using Suc.hyps(2) by simp
  have ih: "foreach_from f t h (Suc i) c' = Some (visit_chain f (concat (drop (Suc i) sl)) c')" for c'
    using Suc.hyps(1) [OF k] i by simp
  show ?case
    using go
    by (subst foreach_from.simps)
      (auto simp: r d ih visit_chain_append split: prod.splits bool.splits)
qed

lemma HTab_foreach_ok:
  assumes "tab_ok t h"
  shows "HTab_foreach f arg t h = Some (visit_chain f (nodes_of t h) arg)"
proof (cases "tab t")
  case None
  with assms have "mask_f t = 0" by (simp add: tab_ok_def)
  then have "foreach_from f t h 0 arg = Some (True, arg)"
    by (subst foreach_from.simps) simp
  with None show ?thesis by (simp add: HTab_foreach_def nodes_of_none)
next
  case (Some a)
  with assms obtain sl where sl: "cells h a = Some sl" "slots_ok t sl"
    by (auto simp: tab_ok_Some)
  from sl(2) obtain k where k: "2 \<le> k" "Suc (mask_f t) = 2 ^ k" and len: "length sl = Suc (mask_f t)"
    by (auto simp: slots_ok_def)
  have "2 ^ 2 \<le> (2::nat) ^ k" using k(1) by (intro power_increasing) simp_all
  with k(2) have "mask_f t \<noteq> 0" by auto
  from foreach_from_live [OF Some sl(1) len this, of 0 f arg]
  show ?thesis using Some sl(1) by (simp add: HTab_foreach_def nodes_of_live)
qed

lemma HMap_foreach_ok:
  assumes "hmap_inv m h"
  shows "HMap_foreach f arg m h = Some (snd (visit_chain f (all_nodes m h) arg))"
proof -
  from assms have ok: "tab_ok (newer m) h" "tab_ok (older m) h" by (simp_all add: hmap_inv_def)
  show ?thesis
    by (auto simp: HMap_foreach_def HTab_foreach_ok [OF ok(1)] HTab_foreach_ok [OF ok(2)]
        all_nodes_def visit_chain_append split: prod.splits bool.splits)
qed

lemma visit_chain_collect: "visit_chain (\<lambda>n vs. (True, vs @ [n])) xs acc = (True, acc @ xs)"
  by (induction xs arbitrary: acc) simp_all

lemma visit_chain_count: "visit_chain (\<lambda>n c. (True, Suc c)) xs k = (True, k + length xs)"
  by (induction xs arbitrary: k) simp_all

lemma length_all_nodes:
  assumes "hmap_inv m h"
  shows "length (all_nodes m h) = HMap_size m"
proof -
  have "tab_ok t h \<Longrightarrow> length (nodes_of t h) = size_f t" for t
    by (auto simp: tab_ok_def nodes_of_def slots_of_def slots_ok_def split: option.splits)
  with assms show ?thesis by (simp add: hmap_inv_def all_nodes_def HMap_size_def)
qed

section \<open>The sizes along a run of inserts\<close>

lemma helped_count:
  assumes "helped k m h m' h'" "k \<le> kRehasingWork"
  shows "k = min kRehasingWork (size_f (older m))"
proof -
  from assms(1) have a: "size_f (older m') + k = size_f (older m)"
    and b: "size_f (older m) \<noteq> k \<longrightarrow> k = kRehasingWork"
    unfolding helped_def by (auto split: if_splits)
  show ?thesis
  proof (cases "size_f (older m) = k")
    case True
    with assms(2) show ?thesis by simp
  next
    case False
    with b have "k = kRehasingWork" by simp
    with a show ?thesis by simp
  qed
qed

lemma helped_shape:
  assumes hp: "helped k m h m' h'" and k: "k \<le> kRehasingWork" and inv: "hmap_inv m h"
  shows "shape m' = migrate_shape (shape m)"
proof -
  note kk = helped_count [OF hp k]
  from hp have n: "tab (newer m') = tab (newer m)" "mask_f (newer m') = mask_f (newer m)"
    "size_f (newer m') = size_f (newer m) + k" "size_f (older m') + k = size_f (older m)"
    unfolding helped_def by blast+
  from inv have oko: "tab_ok (older m) h" by (simp add: hmap_inv_def)
  show ?thesis
  proof (cases "size_f (older m) = k")
    case True
    with hp have e: "older m' = HTab_empty" unfolding helped_def by simp
    have "tab (older m) = None \<Longrightarrow> mask_f (older m) = 0"
      using oko by (simp add: tab_ok_def)
    then show ?thesis
      using True n kk e k by (cases "tab (older m)") (auto simp: shape_def migrate_shape_def HTab_empty_def Let_def)
  next
    case False
    with hp have o: "tab (older m') = tab (older m)" "mask_f (older m') = mask_f (older m)"
      unfolding helped_def by simp_all
    from False n(4) have "size_f (older m) - k \<noteq> 0" by simp
    then show ?thesis
      using n o kk by (auto simp: shape_def migrate_shape_def Let_def)
  qed
qed

lemma HMap_insert_shape:
  assumes inv: "hmap_inv m h" and fresh: "addr node \<notin> addr ` set (all_nodes m h)"
  shows "\<exists>m' h'. HMap_insert node m h = Some (m', h') \<and> shape m' = insert_shape (shape m)"
proof -
  from HMap_insert_stages [OF inv fresh] obtain m3 h3 where
    s: "HMap_insert node m h = help_rehashing m3 h3" and inv3: "hmap_inv m3 h3"
    and c: "if tab (older m) = None \<and> tab (newer m) \<noteq> None \<and>
               (mask_f (newer m) + 1) * kMaxLoadFactor \<le> size_f (newer m) + 1
            then tab (older m3) = tab (newer m) \<and> mask_f (older m3) = mask_f (newer m) \<and>
                 size_f (older m3) = size_f (newer m) + 1 \<and>
                 tab (newer m3) = Some (brk h) \<and> size_f (newer m3) = 0 \<and>
                 Suc (mask_f (newer m3)) = 2 * Suc (mask_f (newer m)) \<and> migrate_pos m3 = 0
            else older m3 = older m \<and> migrate_pos m3 = migrate_pos m \<and>
                 size_f (newer m3) = size_f (newer m) + 1 \<and>
                 tab (newer m3) = (if tab (newer m) = None then Some (brk h) else tab (newer m)) \<and>
                 mask_f (newer m3) = (if tab (newer m) = None then 3 else mask_f (newer m))"
    by (elim exE conjE) (rule that)
  from help_rehashing_inv [OF inv3] obtain m' h' k where
    h: "help_rehashing m3 h3 = Some (m', h')" "helped k m3 h3 m' h'" "k \<le> kRehasingWork"
    by blast
  note sh = helped_shape [OF h(2,3) inv3]
  have "shape m3 = front_shape (shape m)"
  proof (cases "tab (older m) = None \<and> tab (newer m) \<noteq> None \<and>
               (mask_f (newer m) + 1) * kMaxLoadFactor \<le> size_f (newer m) + 1")
    case True
    with c have d: "tab (older m3) = tab (newer m)" "mask_f (older m3) = mask_f (newer m)"
      "size_f (older m3) = size_f (newer m) + 1" "tab (newer m3) = Some (brk h)"
      "size_f (newer m3) = 0" "Suc (mask_f (newer m3)) = 2 * Suc (mask_f (newer m))"
      by simp_all
    from d(6) have m3: "mask_f (newer m3) = (mask_f (newer m) + 1) * 2 - 1" by simp
    from True have t: "tab (older m) = None" "tab (newer m) \<noteq> None"
      "(mask_f (newer m) + 1) * kMaxLoadFactor \<le> size_f (newer m) + 1" by simp_all
    have a: "shape m3 = (False, (mask_f (newer m) + 1) * 2 - 1, 0, False, mask_f (newer m),
                        size_f (newer m) + 1)"
      using d(1,2,3,4,5) m3 t(2) by (simp add: shape_def)
    have b: "shape m = (False, mask_f (newer m), size_f (newer m), True, mask_f (older m),
                       size_f (older m))"
      using t(1,2) by (simp add: shape_def)
    show ?thesis
      unfolding a b front_shape_def using t(3) by (simp add: Let_def)
  next
    case False
    with c have d: "older m3 = older m" "size_f (newer m3) = size_f (newer m) + 1"
      "tab (newer m3) = (if tab (newer m) = None then Some (brk h) else tab (newer m))"
      "mask_f (newer m3) = (if tab (newer m) = None then 3 else mask_f (newer m))"
      by simp_all
    show ?thesis
    proof (cases "tab (newer m)")
      case None
      with inv have z: "size_f (newer m) = 0" by (simp add: hmap_inv_def tab_ok_def)
      have a: "shape m3 = (False, 3, 1, tab (older m) = None, mask_f (older m), size_f (older m))"
        using d None z by (simp add: shape_def)
      have b: "shape m = (True, mask_f (newer m), 0, tab (older m) = None, mask_f (older m),
                         size_f (older m))"
        using None z by (simp add: shape_def)
      show ?thesis
        unfolding a b front_shape_def by (simp add: kMaxLoadFactor_def Let_def)
    next
      case (Some a)
      have a: "shape m3 = (False, mask_f (newer m), size_f (newer m) + 1, tab (older m) = None,
                          mask_f (older m), size_f (older m))"
        using d Some by (simp add: shape_def)
      have b: "shape m = (False, mask_f (newer m), size_f (newer m), tab (older m) = None,
                         mask_f (older m), size_f (older m))"
        using Some by (simp add: shape_def)
      have nd: "\<not> (tab (older m) = None \<and>
                  (mask_f (newer m) + 1) * kMaxLoadFactor \<le> size_f (newer m) + 1)"
        using False Some by simp
      show ?thesis
        unfolding a b front_shape_def using nd by (auto simp: Let_def)
    qed
  qed
  with sh have "shape m' = insert_shape (shape m)" by (simp add: insert_shape_def)
  with s h(1) show ?thesis by simp
qed

lemma insert_all_shape:
  assumes "reachable L m h" "distinct (map addr ns)" "addr ` set ns \<inter> addr ` set_mset L = {}"
  shows "\<exists>m' h'. insert_all ns m h = Some (m', h') \<and> reachable (L + mset ns) m' h' \<and>
           shape m' = fold (\<lambda>_. insert_shape) ns (shape m)"
  using assms
proof (induction ns arbitrary: L m h)
  case Nil
  then show ?case by simp
next
  case (Cons n ns)
  from reachable_inv [OF Cons.prems(1)] have inv: "hmap_inv m h" and L: "mset (all_nodes m h) = L"
    by simp_all
  from L have S: "set (all_nodes m h) = set_mset L" by (metis set_mset_mset)
  from Cons.prems(3) have f: "addr n \<notin> addr ` set_mset L" by auto
  with S have "addr n \<notin> addr ` set (all_nodes m h)" by simp
  from HMap_insert_shape [OF inv this] obtain m1 h1 where
    i: "HMap_insert n m h = Some (m1, h1)" "shape m1 = insert_shape (shape m)"
    by blast
  have r1: "reachable (add_mset n L) m1 h1"
    using Cons.prems(1) f i(1) by (rule reachable.insert)
  have d: "distinct (map addr ns)" using Cons.prems(2) by simp
  have j: "addr ` set ns \<inter> addr ` set_mset (add_mset n L) = {}"
    using Cons.prems(2,3) by auto
  from Cons.IH [OF r1 d j] obtain m' h' where
    a: "insert_all ns m1 h1 = Some (m', h')" "reachable (add_mset n L + mset ns) m' h'"
    "shape m' = fold (\<lambda>_. insert_shape) ns (shape m1)"
    by blast
  have "insert_all (n # ns) m h = Some (m', h')" using i(1) a(1) by simp
  moreover have "reachable (L + mset (n # ns)) m' h'" using a(2) by simp
  moreover have "shape m' = fold (\<lambda>_. insert_shape) (n # ns) (shape m)"
    using a(3) i(2) by simp
  ultimately show ?case by blast
qed

lemma scenario_A_shape:
  "\<exists>m h. scenario_A n = Some (m, h) \<and> reachable (mset (map node_of [0..<n])) m h \<and>
         shape m = fold (\<lambda>_. insert_shape) [0..<n] (True, 0, 0, True, 0, 0)"
proof -
  have "map addr (map node_of [0..<n]) = [0..<n]"
    by (simp add: node_of_def comp_def map_idI)
  then have d: "distinct (map addr (map node_of [0..<n]))" by simp
  have s: "shape HMap_empty = (True, 0, 0, True, 0, 0)"
    by (simp add: shape_def HMap_empty_def HTab_empty_def)
  have f: "fold (\<lambda>_. insert_shape) (map node_of [0..<n]) s = fold (\<lambda>_. insert_shape) [0..<n] s" for s
    by (simp add: fold_map comp_def)
  from insert_all_shape [OF reachable.start [OF heap_ok_empty] d] s f
  show ?thesis by (simp add: scenario_A_def)
qed

lemma shape_256:
  "fold (\<lambda>_. insert_shape) [0..<256] (True, 0, 0, True, 0, 0) = (False, 63, 128, False, 31, 128)"
  by code_simp

text \<open>After 256 inserts a cycle is in progress: the older table has capacity 32 and 128
  nodes, the newer table has capacity 64 and 128 nodes.\<close>

lemma scenario_A_256:
  "\<exists>m h. scenario_A 256 = Some (m, h) \<and> reachable (mset (map node_of [0..<256])) m h \<and>
         shape m = (False, 63, 128, False, 31, 128)"
  using scenario_A_shape [of 256] by (simp only: shape_256)

section \<open>The order of a traversal of one table\<close>

text \<open>On a live array of \<open>mask + 1\<close> slots with \<open>mask \<noteq> 0\<close>, \<open>foreach\<close> visits the slots in
  index order and each chain from its head, where \<open>insert\<close> links a node
  (\<open>HTab_insert_eq\<close>).\<close>

lemma HTab_foreach_order:
  assumes "tab t = Some a" "cells h a = Some sl" "length sl = Suc (mask_f t)" "mask_f t \<noteq> 0"
  shows "HTab_foreach f arg t h = Some (visit_chain f (concat sl) arg)"
  using foreach_from_live [OF assms, of 0 f arg] by (simp add: HTab_foreach_def)

lemma concat_single_slot:
  assumes "p < n"
  shows "concat ((replicate n [])[p := c]) = c"
proof -
  have "(replicate n [])[p := c] = take p (replicate n []) @ c # drop (Suc p) (replicate n [])"
    using assms by (simp add: upd_conv_take_nth_drop)
  then show ?thesis by simp
qed

text \<open>Scenario B on a table of capacity at least 2: the traversal visits \<open>b\<close>, then \<open>a\<close>.\<close>

lemma scenario_B_order:
  assumes n: "n = 2 ^ k" and k: "0 < k"
    and same: "unat (hcode a) AND (n - 1) = unat (hcode b) AND (n - 1)"
  shows "\<exists>t h. scenario_B n a b = Some (t, h) \<and>
           HTab_foreach (\<lambda>x vs. (True, vs @ [x])) [] t h = Some (True, [b, a])"
proof -
  define p where "p = unat (hcode a) AND (n - 1)"
  have p: "p < n" unfolding p_def using and_pow2_mask_nat [of "unat (hcode a)" k] n by simp
  define t0 where "t0 = HTab_empty\<lparr>tab := Some 0, mask_f := n - 1, size_f := 0\<rparr>"
  define h0 where "h0 = heap_empty\<lparr>cells := (cells heap_empty)(0 \<mapsto> replicate n []), brk := Suc 0\<rparr>"
  have i0: "HTab_init n HTab_empty heap_empty = Some (t0, h0)"
    using HTab_init_eq [OF n, of HTab_empty heap_empty] by (simp add: t0_def h0_def heap_empty_def)
  have t0: "tab t0 = Some 0" "mask_f t0 = n - 1" by (simp_all add: t0_def)
  have c0: "cells h0 0 = Some (replicate n [])" by (simp add: h0_def)
  have pa: "get_position t0 (hcode a) = p" by (simp add: get_position_def t0 p_def)
  define t1 where "t1 = t0\<lparr>size_f := size_f t0 + 1\<rparr>"
  define h1 where "h1 = h0\<lparr>cells := (cells h0)(0 \<mapsto> (replicate n [])[p := [a]])\<rparr>"
  have i1: "HTab_insert a t0 h0 = Some (t1, h1)"
    using HTab_insert_eq [OF t0(1) c0, of a] p by (simp add: pa t1_def h1_def)
  have t1: "tab t1 = Some 0" "mask_f t1 = n - 1" by (simp_all add: t1_def t0)
  have c1: "cells h1 0 = Some ((replicate n [])[p := [a]])" by (simp add: h1_def)
  have pb: "get_position t1 (hcode b) = p" using same by (simp add: get_position_def t1 p_def)
  define t2 where "t2 = t1\<lparr>size_f := size_f t1 + 1\<rparr>"
  define h2 where "h2 = h1\<lparr>cells := (cells h1)(0 \<mapsto> (replicate n [])[p := [b, a]])\<rparr>"
  have i2: "HTab_insert b t1 h1 = Some (t2, h2)"
    using HTab_insert_eq [OF t1(1) c1, of b] p by (simp add: pb t2_def h2_def)
  have s: "scenario_B n a b = Some (t2, h2)"
    by (simp add: scenario_B_def i0 i1 i2)
  have t2: "tab t2 = Some 0" "mask_f t2 = n - 1" by (simp_all add: t2_def t1)
  have c2: "cells h2 0 = Some ((replicate n [])[p := [b, a]])" by (simp add: h2_def)
  have "(2::nat) ^ 1 \<le> 2 ^ k" using k by (intro power_increasing) simp_all
  then have n2: "2 \<le> n" using n by simp
  then have len: "length ((replicate n [])[p := [b, a]]) = Suc (mask_f t2)" and nz: "mask_f t2 \<noteq> 0"
    by (simp_all add: t2)
  have "HTab_foreach (\<lambda>x vs. (True, vs @ [x])) [] t2 h2 = Some (True, [b, a])"
    using HTab_foreach_order [OF t2(1) c2 len nz, of "\<lambda>x vs. (True, vs @ [x])" "[]"]
    by (simp add: concat_single_slot [OF p] visit_chain_collect)
  with s show ?thesis by blast
qed

section \<open>A reachable state with an emptied older table that is not freed\<close>

lemma delete_from_older:
  assumes inv: "hmap_inv m h" and hr: "help_rehashing m h = Some (m1, h1)"
    and x: "x \<in> set (nodes_of (older m1) h1)"
  shows "\<exists>m' h'. hm_delete x same_addr m h = Some (Some x, m', h') \<and>
           shape m' = delete_older_shape (shape m) \<and> tab (older m') \<noteq> None"
proof -
  from help_rehashing_inv [OF inv] hr obtain k where
    inv1: "hmap_inv m1 h1" and hp: "helped k m h m1 h1" "k \<le> kRehasingWork"
    by auto
  from inv1 have okn: "tab_ok (newer m1) h1" and oko: "tab_ok (older m1) h1"
    and dist: "distinct (map addr (all_nodes m1 h1))"
    by (simp_all add: hmap_inv_def)
  from dist have dn: "distinct (map addr (nodes_of (older m1) h1))"
    and disj: "addr ` set (nodes_of (newer m1) h1) \<inter> addr ` set (nodes_of (older m1) h1) = {}"
    by (simp_all add: all_nodes_def)
  from okn have missn: "HTab_lookup x same_addr (newer m1) h1 = Some None"
  proof (cases rule: HTab_lookup_cases [where key = x and eq = same_addr])
    case miss
    then show ?thesis .
  next
    case (hit p i a sl)
    from nth_in_nodes [OF hit(2,3,5,6)] have "sl ! p ! i \<in> set (nodes_of (newer m1) h1)" .
    moreover from hit(8) have "addr (sl ! p ! i) = addr x" by (simp add: same_addr_def)
    ultimately show ?thesis using x disj by force
  qed
  from oko show ?thesis
  proof (cases rule: HTab_lookup_cases [where key = x and eq = same_addr])
    case miss
    from HTab_lookup_miss [OF oko miss x] show ?thesis by (simp add: same_addr_def)
  next
    case (hit p i b sl)
    from nth_in_nodes [OF hit(2,3,5,6)] have y: "sl ! p ! i \<in> set (nodes_of (older m1) h1)" .
    from hit(8) have "addr (sl ! p ! i) = addr x" by (simp add: same_addr_def)
    with dn x y have e: "sl ! p ! i = x"
      by (meson distinct_map inj_onD)
    let ?m = "m1\<lparr>older := (older m1)\<lparr>size_f := size_f (older m1) - 1\<rparr>\<rparr>"
    let ?h = "h1\<lparr>cells := (cells h1)(b \<mapsto> sl[p := take i (sl ! p) @ drop (Suc i) (sl ! p)])\<rparr>"
    have "HTab_detach (Link p i) (older m1) h1 =
            Some (sl ! p ! i, (older m1)\<lparr>size_f := size_f (older m1) - 1\<rparr>, ?h)"
      using hit(2,3,5,6) removed_size [OF hit(4,5,6)] by (rule HTab_detach_eq)
    then have d: "hm_delete x same_addr m h = Some (Some x, ?m, ?h)"
      using hr missn hit(1) e by (simp add: hm_delete_def)
    have "shape ?m = (case shape m1 of (nn, nm, ns, on, om, os) \<Rightarrow> (nn, nm, ns, on, om, os - 1))"
      by (simp add: shape_def)
    then have "shape ?m = delete_older_shape (shape m)"
      using helped_shape [OF hp inv] by (simp add: delete_older_shape_def)
    moreover have "tab (older ?m) \<noteq> None" using hit(2) by simp
    ultimately show ?thesis using d by blast
  qed
qed

lemma attainable_start: "attainable (True, 0, 0, True, 0, 0)"
  unfolding attainable_def
  using reachable.start [OF heap_ok_empty]
  by (intro exI [of _ "{#}"] exI [of _ HMap_empty] exI [of _ heap_empty])
    (simp add: shape_def HMap_empty_def HTab_empty_def)

lemma attainable_insert: "attainable s \<Longrightarrow> attainable (insert_shape s)"
proof -
  assume "attainable s"
  then obtain L m h where re: "reachable L m h" and s: "shape m = s"
    unfolding attainable_def by blast
  from reachable_inv [OF re] have inv: "hmap_inv m h" and L: "mset (all_nodes m h) = L"
    by simp_all
  have "finite (addr ` set_mset L)" by simp
  then obtain a where a: "a \<notin> addr ` set_mset L"
    using ex_new_if_finite [OF infinite_UNIV_nat] by blast
  define node where "node = \<lparr>addr = a, hcode = 0\<rparr>"
  have f: "addr node \<notin> addr ` set_mset L" using a by (simp add: node_def)
  from L have "set (all_nodes m h) = set_mset L" by (metis set_mset_mset)
  with f have "addr node \<notin> addr ` set (all_nodes m h)" by simp
  from HMap_insert_shape [OF inv this] obtain m' h' where
    i: "HMap_insert node m h = Some (m', h')" "shape m' = insert_shape (shape m)"
    by blast
  from reachable.insert [OF re f i(1)] i(2) s show ?thesis
    unfolding attainable_def by blast
qed

lemma attainable_lookup: "attainable s \<Longrightarrow> attainable (migrate_shape s)"
proof -
  assume "attainable s"
  then obtain L m h where re: "reachable L m h" and s: "shape m = s"
    unfolding attainable_def by blast
  from reachable_inv [OF re] have inv: "hmap_inv m h" by simp
  from HMap_lookup_inv [OF inv, of "node_of 0" same_addr] obtain r m' h' k where
    l: "HMap_lookup (node_of 0) same_addr m h = Some (r, m', h')"
    and hp: "helped k m h m' h'" "k \<le> kRehasingWork"
    by blast
  from reachable.lookup [OF re l] helped_shape [OF hp inv] s show ?thesis
    unfolding attainable_def by blast
qed

lemma attainable_delete:
  assumes "attainable s" and "migrate_shape s = (nn, nm, ns, on, om, os)" and "0 < os"
  shows "attainable (nn, nm, ns, False, om, os - 1)"
proof -
  from assms(1) obtain L m h where re: "reachable L m h" and s: "shape m = s"
    unfolding attainable_def by blast
  from reachable_inv [OF re] have inv: "hmap_inv m h" by simp
  from help_rehashing_inv [OF inv] obtain m1 h1 k where
    hr: "help_rehashing m h = Some (m1, h1)" and inv1: "hmap_inv m1 h1"
    and hp: "helped k m h m1 h1" "k \<le> kRehasingWork"
    by blast
  from helped_shape [OF hp inv] s assms(2) have s1: "shape m1 = (nn, nm, ns, on, om, os)" by simp
  then have sz: "size_f (older m1) = os" by (simp add: shape_def)
  from inv1 have "tab_ok (older m1) h1" by (simp add: hmap_inv_def)
  then have "length (nodes_of (older m1) h1) = size_f (older m1)"
    by (auto simp: tab_ok_def nodes_of_def slots_of_def slots_ok_def split: option.splits)
  with sz assms(3) have "nodes_of (older m1) h1 \<noteq> []" by auto
  then have "hd (nodes_of (older m1) h1) \<in> set (nodes_of (older m1) h1)" by simp
  then obtain x where x: "x \<in> set (nodes_of (older m1) h1)" ..
  from delete_from_older [OF inv hr x] obtain m' h' where
    d: "hm_delete x same_addr m h = Some (Some x, m', h')"
    "shape m' = delete_older_shape (shape m)" "tab (older m') \<noteq> None"
    by blast
  from d(2) s assms(2) have "shape m' = (nn, nm, ns, on, om, os - 1)"
    by (simp add: delete_older_shape_def)
  moreover from this d(3) have "on = False" by (simp add: shape_def)
  ultimately have "shape m' = (nn, nm, ns, False, om, os - 1)" by simp
  with reachable.delete_hit [OF re d(1)] show ?thesis
    unfolding attainable_def by blast
qed

lemma migrate_shape_eq:
  "migrate_shape (nn, nm, ns, False, om, os) =
     (if os \<le> 128 then (nn, nm, ns + os, True, 0, 0) else (nn, nm, ns + 128, False, om, os - 128))"
  by (simp add: migrate_shape_def kRehasingWork_def Let_def min_def)

lemma insert_shape_first: "insert_shape (True, 0, 0, True, 0, 0) = (False, 3, 1, True, 0, 0)"
  by (simp add: insert_shape_def front_shape_def migrate_shape_def kMaxLoadFactor_def Let_def)

lemma insert_shape_quiet:
  assumes "ns + 1 < (nm + 1) * 8"
  shows "insert_shape (False, nm, ns, True, 0, 0) = (False, nm, ns + 1, True, 0, 0)"
  using assms
  by (simp add: insert_shape_def front_shape_def migrate_shape_def kMaxLoadFactor_def Let_def)

lemma insert_shape_trigger:
  assumes "ns + 1 = (nm + 1) * 8"
  shows "insert_shape (False, nm, ns, True, 0, 0) =
           migrate_shape (False, 2 * nm + 1, 0, False, nm, (nm + 1) * 8)"
  using assms
  by (simp add: insert_shape_def front_shape_def kMaxLoadFactor_def Let_def mult.commute)

lemma attainable_grow:
  assumes "attainable (False, nm, ns, True, 0, 0)" and "ns + d < (nm + 1) * 8"
  shows "attainable (False, nm, ns + d, True, 0, 0)"
  using assms(2)
proof (induction d)
  case 0
  with assms(1) show ?case by simp
next
  case (Suc d)
  then have a: "attainable (False, nm, ns + d, True, 0, 0)" by simp
  from Suc.prems have "(ns + d) + 1 < (nm + 1) * 8" by simp
  from attainable_insert [OF a] insert_shape_quiet [OF this] show ?case by simp
qed

lemma attainable_drain:
  "attainable (nn, nm, ns, False, om, os) \<Longrightarrow> attainable (nn, nm, ns + os, True, 0, 0)"
proof (induction os arbitrary: ns rule: less_induct)
  case (less os)
  from attainable_lookup [OF less.prems]
  have m: "attainable (if os \<le> 128 then (nn, nm, ns + os, True, 0, 0)
                       else (nn, nm, ns + 128, False, om, os - 128))"
    by (simp only: migrate_shape_eq)
  show ?case
  proof (cases "os \<le> 128")
    case True
    with m show ?thesis by simp
  next
    case False
    with m have "attainable (nn, nm, ns + 128, False, om, os - 128)" by simp
    from less.IH [OF _ this] False show ?thesis by simp
  qed
qed

lemma attainable_double:
  assumes "attainable (False, nm, ns, True, 0, 0)" and "ns < (nm + 1) * 8"
  shows "attainable (False, 2 * nm + 1, (nm + 1) * 8, True, 0, 0)"
proof -
  define d where "d = (nm + 1) * 8 - 1 - ns"
  have e: "ns + d = (nm + 1) * 8 - 1" using assms(2) by (simp add: d_def)
  then have "ns + d < (nm + 1) * 8" by simp
  from attainable_grow [OF assms(1) this]
  have a: "attainable (False, nm, (nm + 1) * 8 - 1, True, 0, 0)" by (simp only: e)
  have "(nm + 1) * 8 - 1 + 1 = (nm + 1) * 8" by simp
  from attainable_insert [OF a] insert_shape_trigger [OF this]
  have b: "attainable (migrate_shape (False, 2 * nm + 1, 0, False, nm, (nm + 1) * 8))" by simp
  show ?thesis
  proof (cases "(nm + 1) * 8 \<le> 128")
    case True
    with b show ?thesis by (simp add: migrate_shape_eq)
  next
    case False
    with b have "attainable (False, 2 * nm + 1, 128, False, nm, (nm + 1) * 8 - 128)"
      by (simp add: migrate_shape_eq)
    from attainable_drain [OF this] False show ?thesis by simp
  qed
qed

lemma attainable_lookups:
  assumes "attainable (nn, nm, ns, False, om, os)" and "128 * j < os"
  shows "attainable (nn, nm, ns + 128 * j, False, om, os - 128 * j)"
  using assms(2)
proof (induction j)
  case 0
  with assms(1) show ?case by simp
next
  case (Suc j)
  then have a: "attainable (nn, nm, ns + 128 * j, False, om, os - 128 * j)" by simp
  from Suc.prems have "\<not> os - 128 * j \<le> 128" by simp
  with attainable_lookup [OF a]
  have "attainable (nn, nm, ns + 128 * j + 128, False, om, os - 128 * j - 128)"
    by (simp add: migrate_shape_eq)
  then show ?case by (simp add: algebra_simps)
qed

lemma attainable_deletes:
  assumes "attainable (nn, nm, ns, False, om, os)" and "129 * j \<le> os"
  shows "attainable (nn, nm, ns + 128 * j, False, om, os - 129 * j)"
  using assms(2)
proof (induction j)
  case 0
  with assms(1) show ?case by simp
next
  case (Suc j)
  then have a: "attainable (nn, nm, ns + 128 * j, False, om, os - 129 * j)" by simp
  from Suc.prems have big: "\<not> os - 129 * j \<le> 128" by simp
  then have m: "migrate_shape (nn, nm, ns + 128 * j, False, om, os - 129 * j) =
      (nn, nm, ns + 128 * j + 128, False, om, os - 129 * j - 128)"
    by (simp add: migrate_shape_eq)
  from big have "0 < os - 129 * j - 128" by simp
  from attainable_delete [OF a m this]
  have "attainable (nn, nm, ns + 128 * j + 128, False, om, os - 129 * j - 128 - 1)" .
  then show ?case by (simp add: algebra_simps)
qed

text \<open>From \<open>HMap{}\<close>: inserts up to the cycle that retires the table of capacity 4096
  with 32768 nodes, then 126 lookups, then 128 deletes of nodes that are still in the
  older table. The last delete takes the last node of the older table.\<close>

lemma attainable_emptied: "\<exists>ns. attainable (False, 8191, ns, False, 4095, 0)"
proof -
  have "attainable (False, 3, 1, True, 0, 0)"
    using attainable_insert [OF attainable_start] by (simp add: insert_shape_first)
  from attainable_double [OF this] have "attainable (False, 7, 32, True, 0, 0)" by simp
  from attainable_double [OF this] have "attainable (False, 15, 64, True, 0, 0)" by simp
  from attainable_double [OF this] have "attainable (False, 31, 128, True, 0, 0)" by simp
  from attainable_double [OF this] have "attainable (False, 63, 256, True, 0, 0)" by simp
  from attainable_double [OF this] have "attainable (False, 127, 512, True, 0, 0)" by simp
  from attainable_double [OF this] have "attainable (False, 255, 1024, True, 0, 0)" by simp
  from attainable_double [OF this] have "attainable (False, 511, 2048, True, 0, 0)" by simp
  from attainable_double [OF this] have "attainable (False, 1023, 4096, True, 0, 0)" by simp
  from attainable_double [OF this] have "attainable (False, 2047, 8192, True, 0, 0)" by simp
  from attainable_double [OF this] have "attainable (False, 4095, 16384, True, 0, 0)" by simp
  from attainable_grow [OF this, of 16383]
  have a: "attainable (False, 4095, 32767, True, 0, 0)" by simp
  have "insert_shape (False, 4095, 32767, True, 0, 0) = (False, 8191, 128, False, 4095, 32640)"
    using insert_shape_trigger [of 32767 4095] by (simp add: migrate_shape_eq)
  with attainable_insert [OF a] have "attainable (False, 8191, 128, False, 4095, 32640)" by simp
  from attainable_lookups [OF this, of 126]
  have "attainable (False, 8191, 16256, False, 4095, 16512)" by simp
  from attainable_deletes [OF this, of 128]
  have "attainable (False, 8191, 32640, False, 4095, 0)" by simp
  then show ?thesis ..
qed

lemma reachable_emptied_not_freed:
  "\<exists>L m h. reachable L m h \<and> size_f (older m) = 0 \<and> tab (older m) \<noteq> None \<and>
             slots_of (older m) h \<noteq> None"
proof -
  from attainable_emptied obtain ns L m h where
    re: "reachable L m h" and s: "shape m = (False, 8191, ns, False, 4095, 0)"
    unfolding attainable_def by blast
  from s have o: "size_f (older m) = 0" "tab (older m) \<noteq> None" by (simp_all add: shape_def)
  from reachable_inv [OF re] have "tab_ok (older m) h" by (simp add: hmap_inv_def)
  with o(2) have "slots_of (older m) h \<noteq> None"
    by (auto simp: tab_ok_def slots_of_def split: option.splits)
  with re o show ?thesis by blast
qed

section \<open>The loops over the links\<close>

text \<open>On a chain that is a list, the loop of \<open>foreach\<close> over the links is the loop over
  the list, and the loop of \<open>lookup\<close> stops at the incoming pointer of the node that the
  scan of the list finds. On a node that is its own successor the loop of \<open>foreach\<close> ends
  only when the visitor stops it.\<close>

lemma visit_links_None: "visit_links f nx None c = Some (True, c)"
  by (subst visit_links.simps) simp

lemma visit_links_Some:
  "visit_links f nx (Some node) c =
     (let (go, c') = f node c
      in if go then visit_links f nx (nx (addr node)) c' else Some (False, c'))"
  by (subst visit_links.simps) simp

lemma visit_links_chain:
  "is_chain nx p xs \<Longrightarrow> visit_links f nx p c = Some (visit_chain f xs c)"
proof (induction xs arbitrary: p c)
  case Nil
  then show ?case by (simp add: visit_links_None)
next
  case (Cons n rest)
  then show ?case
    by (cases "f n c") (simp add: visit_links_Some)
qed

lemma visit_links_cycle:
  assumes nx: "nx (addr n) = Some n" and go: "\<And>x c. fst (f x c)"
  shows "visit_links f nx (Some n) c = None"
proof (rule ccontr)
  assume "visit_links f nx (Some n) c \<noteq> None"
  then obtain y where y: "visit_links f nx (Some n) c = Some y" by auto
  have "f = f \<longrightarrow> nx = nx \<longrightarrow> Some n = Some n \<longrightarrow> False"
  proof (rule visit_links.raw_induct
      [where P = "\<lambda>f' nx' p c' y'. f' = f \<longrightarrow> nx' = nx \<longrightarrow> p = Some n \<longrightarrow> False", OF _ y],
      goal_cases)
    case (1 vl f' nx' p c' y')
    show ?case
    proof (intro impI)
      assume e: "f' = f" "nx' = nx" "p = Some n"
      obtain b d where fd: "f n c' = (b, d)" by (cases "f n c'")
      with go [of n c'] have b: "b = True" by simp
      from 1(2) e fd b nx have "vl f nx (Some n) d = Some y'" by simp
      from 1(1) [OF this] show False by simp
    qed
  qed
  then show False by simp
qed

lemma visit_links_stop:
  assumes nx: "nx (addr n) = Some n"
  shows "c \<le> k \<Longrightarrow> visit_links (\<lambda>x c. (c < k, Suc c)) nx (Some n) c = Some (False, Suc k)"
proof (induction "k - c" arbitrary: c)
  case 0
  then show ?case by (simp add: visit_links_Some)
next
  case (Suc d)
  then have "c < k" "d = k - Suc c" "Suc c \<le> k" by simp_all
  with Suc(1) [of "Suc c"] nx show ?case by (simp add: visit_links_Some)
qed

lemma scan_links_None: "scan_links key eq nx l None = Some None"
  by (subst scan_links.simps) simp

lemma scan_links_Some:
  "scan_links key eq nx l (Some cur) =
     (if hcode cur = hcode key \<and> eq cur key then Some (Some l)
      else scan_links key eq nx (Next_of (addr cur)) (nx (addr cur)))"
  by (subst scan_links.simps) simp

lemma incoming_of_Cons: "incoming_of (Next_of (addr x)) rest k = incoming_of l (x # rest) (Suc k)"
  by (cases k) simp_all

lemma scan_links_chain:
  "is_chain nx p xs \<Longrightarrow>
   scan_links key eq nx l p = Some (map_option (\<lambda>j. incoming_of l xs (j - i)) (scan key eq xs i))"
proof (induction xs arbitrary: p l i)
  case Nil
  then show ?case by (simp add: scan_links_None)
next
  case (Cons x rest)
  then have p: "p = Some x" and c: "is_chain nx (nx (addr x)) rest" by simp_all
  show ?case
  proof (cases "hcode x = hcode key \<and> eq x key")
    case True
    then show ?thesis by (simp add: p scan_links_Some)
  next
    case False
    have "map_option (\<lambda>j. incoming_of (Next_of (addr x)) rest (j - Suc i)) (scan key eq rest (Suc i))
          = map_option (\<lambda>j. incoming_of l (x # rest) (j - i)) (scan key eq rest (Suc i))"
    proof (cases "scan key eq rest (Suc i)")
      case None
      then show ?thesis by simp
    next
      case (Some j)
      from scan_Some [OF Some] have "Suc i \<le> j" by simp
      then have "j - i = Suc (j - Suc i)" by simp
      then show ?thesis
        using incoming_of_Cons [of x rest "j - Suc i" l] by (simp add: Some)
    qed
    note e = this
    have s1: "scan key eq (x # rest) i = scan key eq rest (Suc i)" using False by auto
    have s2: "scan_links key eq nx l p = scan_links key eq nx (Next_of (addr x)) (nx (addr x))"
      using False by (auto simp: p scan_links_Some)
    show ?thesis
      unfolding s1 s2 using Cons.IH [OF c, of "Next_of (addr x)" "Suc i"] e by simp
  qed
qed

lemma is_chain_nth:
  "is_chain nx p xs \<Longrightarrow> j < length xs \<Longrightarrow>
     (case j of 0 \<Rightarrow> p | Suc k \<Rightarrow> nx (addr (xs ! k))) = Some (xs ! j)"
proof (induction xs arbitrary: p j)
  case Nil
  then show ?case by simp
next
  case (Cons x rest)
  show ?case
  proof (cases j)
    case 0
    with Cons.prems show ?thesis by simp
  next
    case (Suc k)
    with Cons.prems have "k < length rest" "is_chain nx (nx (addr x)) rest" by simp_all
    from Cons.IH [OF this(2,1)] show ?thesis by (cases k) (simp_all add: Suc)
  qed
qed

section \<open>The lists are the links\<close>

text \<open>Every operation takes a memory of links that a well-formed heap of lists
  describes to one that its result on the lists describes, and returns the same map and
  the same node, provided that \<open>insert\<close> is given a node that is not in the lists. So
  every run of \<open>reachable_ptr\<close> is described by a run of \<open>reachable\<close> with the same maps
  (lemma \<open>reachable_ptr_abstracts\<close>), and a traversal of the links is the traversal of
  the lists (lemma \<open>HMap_foreach_sim\<close>).\<close>

lemma chains_ofD:
  "chains_of t s h \<Longrightarrow> tab t = Some a \<Longrightarrow> cells h a = Some sl \<Longrightarrow>
     \<exists>ps. arrays s a = Some ps \<and> list_all2 (is_chain (nexts s)) ps sl"
  by (auto simp: chains_of_def split: option.splits)

lemma chains_ofI:
  "tab t = Some a \<Longrightarrow> cells h a = Some sl \<Longrightarrow> arrays s a = Some ps \<Longrightarrow>
     list_all2 (is_chain (nexts s)) ps sl \<Longrightarrow> chains_of t s h"
  by (simp add: chains_of_def)

lemma chains_of_null: "tab t = None \<Longrightarrow> chains_of t s h"
  by (simp add: chains_of_def)

lemma is_chain_update:
  "a \<notin> addr ` set xs \<Longrightarrow> is_chain (nx(a := v)) p xs = is_chain nx p xs"
  by (induction xs arbitrary: p) auto

lemma chains_update:
  assumes "list_all2 (is_chain nx) ps sl" "a \<notin> addr ` set (concat sl)"
  shows "list_all2 (is_chain (nx(a := v))) ps sl"
proof -
  have "is_chain (nx(a := v)) (ps ! i) (sl ! i)" if "i < length sl" for i
  proof -
    from that have "sl ! i \<in> set sl" by simp
    then have "set (sl ! i) \<subseteq> set (concat sl)" by auto
    with assms(2) have "a \<notin> addr ` set (sl ! i)" by auto
    moreover from assms(1) that have "is_chain nx (ps ! i) (sl ! i)"
      by (simp add: list_all2_conv_all_nth)
    ultimately show ?thesis by (simp add: is_chain_update)
  qed
  with assms(1) show ?thesis by (simp add: list_all2_conv_all_nth)
qed

lemma chains_of_frame:
  assumes c: "chains_of u s h"
    and ar: "\<And>b. tab u = Some b \<Longrightarrow> arrays s' b = arrays s b \<and> cells h' b = cells h b"
    and nx: "nexts s' = (nexts s)(x := v)"
    and fresh: "x \<notin> addr ` set (nodes_of u h)"
  shows "chains_of u s' h'"
proof (cases "tab u")
  case None
  then show ?thesis by (rule chains_of_null)
next
  case b: (Some b)
  note e = ar [OF b]
  show ?thesis
  proof (cases "cells h b")
    case None
    then show ?thesis using b e by (simp add: chains_of_def)
  next
    case (Some sl)
    from chains_ofD [OF c b Some] obtain ps where
      ps: "arrays s b = Some ps" "list_all2 (is_chain (nexts s)) ps sl" by blast
    from fresh have "x \<notin> addr ` set (concat sl)" using b Some by (simp add: nodes_of_live)
    from chains_update [OF ps(2) this] have "list_all2 (is_chain (nexts s')) ps sl"
      by (simp add: nx)
    then show ?thesis using b Some ps(1) e by (simp add: chains_of_def)
  qed
qed

lemma chains_of_same:
  assumes c: "chains_of u s h"
    and ar: "\<And>b. tab u = Some b \<Longrightarrow> arrays s' b = arrays s b \<and> cells h' b = cells h b"
    and nx: "nexts s' = nexts s"
  shows "chains_of u s' h'"
  using c ar nx by (auto simp: chains_of_def split: option.splits)

subsection \<open>The table operations on a chain\<close>

lemma HTab_insert_ptr_eq:
  assumes "tab t = Some a" "arrays s a = Some ps" "get_position t (hcode n) < length ps"
  shows "HTab_insert_ptr n t s =
    Some (t\<lparr>size_f := size_f t + 1\<rparr>,
          s\<lparr>nexts := (nexts s)(addr n := ps ! get_position t (hcode n)),
            arrays := (arrays s)(a \<mapsto> ps[get_position t (hcode n) := Some n])\<rparr>)"
  using assms by (simp add: HTab_insert_ptr_def read_ptr_def write_ptr_def Let_def)

lemma HTab_detach_ptr_eq:
  assumes "tab t = Some a" "arrays s a = Some ps" "p < length ps" "ps ! p = Some x"
    "0 < size_f t"
  shows "HTab_detach_ptr (Slot p) t s =
    Some (x, t\<lparr>size_f := size_f t - 1\<rparr>,
          s\<lparr>arrays := (arrays s)(a \<mapsto> ps[p := nexts s (addr x)])\<rparr>)"
  using assms by (simp add: HTab_detach_ptr_def deref_ptr_def read_ptr_def write_ptr_def)

lemma HTab_init_ptr_eq:
  assumes "n = 2 ^ k"
  shows "HTab_init_ptr n t s =
     Some (t\<lparr>tab := Some (brk_m s), mask_f := n - 1, size_f := 0\<rparr>,
           s\<lparr>arrays := (arrays s)(brk_m s \<mapsto> replicate n None), brk_m := Suc (brk_m s)\<rparr>)"
  using assms pow2_assert [of k] by (simp add: HTab_init_ptr_def calloc_ptr_def)

lemma chains_fresh_array: "list_all2 (is_chain nx) (replicate n None) (replicate n [])"
  by (simp add: list_all2_conv_all_nth)

text \<open>Pushing a node that is in no chain of the array.\<close>

lemma chains_push:
  assumes c: "list_all2 (is_chain nx) ps sl" and p: "p < length sl"
    and fresh: "addr n \<notin> addr ` set (concat sl)"
  shows "list_all2 (is_chain (nx(addr n := ps ! p))) (ps[p := Some n]) (sl[p := n # sl ! p])"
proof -
  let ?nx = "nx(addr n := ps ! p)"
  from chains_update [OF c fresh] have a: "list_all2 (is_chain ?nx) ps sl" .
  then have "is_chain ?nx (ps ! p) (sl ! p)" using p by (simp add: list_all2_conv_all_nth)
  then have "is_chain ?nx (Some n) (n # sl ! p)" by simp
  with a show ?thesis by (rule list_all2_update_cong)
qed

text \<open>Taking the head of a chain.\<close>

lemma chains_pop:
  assumes c: "list_all2 (is_chain nx) ps sl" and p: "p < length sl" and n: "sl ! p = x # rest"
  shows "ps ! p = Some x" and "list_all2 (is_chain nx) (ps[p := nx (addr x)]) (sl[p := rest])"
proof -
  from c p have "is_chain nx (ps ! p) (sl ! p)" by (simp add: list_all2_conv_all_nth)
  with n have a: "ps ! p = Some x" "is_chain nx (nx (addr x)) rest" by simp_all
  show "ps ! p = Some x" by (rule a(1))
  from c a(2) show "list_all2 (is_chain nx) (ps[p := nx (addr x)]) (sl[p := rest])"
    by (rule list_all2_update_cong)
qed


subsection \<open>The migration step\<close>

lemma distinct_pop:
  assumes d: "distinct (map addr (concat sl))" and p: "p < length sl" and n: "sl ! p = x # rest"
  shows "addr x \<notin> addr ` set (concat (sl[p := rest]))"
proof -
  have a: "sl = take p sl @ (x # rest) # drop (Suc p) sl"
    using id_take_nth_drop [OF p] n by simp
  have b: "sl[p := rest] = take p sl @ rest # drop (Suc p) sl"
    using p by (rule upd_conv_take_nth_drop)
  from d have "distinct (map addr (concat (take p sl @ (x # rest) # drop (Suc p) sl)))"
    by (subst (asm) a) simp
  then show ?thesis by (subst b) auto
qed

lemma rehash_iter_ptr_empty:
  assumes "read_ptr (older m) s (migrate_pos m) = Some None"
  shows "rehash_iter_ptr w m s = Some (w, m\<lparr>migrate_pos := migrate_pos m + 1\<rparr>, s)"
  using assms by (simp add: rehash_iter_ptr_def)

lemma rehash_iter_ptr_move:
  assumes b: "tab (older m) = Some b" "arrays s b = Some pb" "migrate_pos m < length pb"
    "pb ! migrate_pos m = Some n" "0 < size_f (older m)"
    and a: "tab (newer m) = Some a" "a \<noteq> b" "arrays s a = Some pa"
    "get_position (newer m) (hcode n) < length pa"
  shows "rehash_iter_ptr w m s =
    Some (w + 1,
          m\<lparr>newer := (newer m)\<lparr>size_f := size_f (newer m) + 1\<rparr>,
            older := (older m)\<lparr>size_f := size_f (older m) - 1\<rparr>\<rparr>,
          s\<lparr>nexts := (nexts s)(addr n := pa ! get_position (newer m) (hcode n)),
            arrays := (arrays s)
              (b \<mapsto> pb[migrate_pos m := nexts s (addr n)],
               a \<mapsto> pa[get_position (newer m) (hcode n) := Some n])\<rparr>)"
proof -
  let ?s = "s\<lparr>arrays := (arrays s)(b \<mapsto> pb[migrate_pos m := nexts s (addr n)])\<rparr>"
  have r: "read_ptr (older m) s (migrate_pos m) = Some (Some n)"
    using b by (simp add: read_ptr_def)
  have d: "HTab_detach_ptr (Slot (migrate_pos m)) (older m) s =
             Some (n, (older m)\<lparr>size_f := size_f (older m) - 1\<rparr>, ?s)"
    using b by (rule HTab_detach_ptr_eq)
  have "arrays ?s a = Some pa" using a(2,3) by simp
  from HTab_insert_ptr_eq [OF a(1) this a(4)]
  have i: "HTab_insert_ptr n (newer m) ?s =
             Some ((newer m)\<lparr>size_f := size_f (newer m) + 1\<rparr>,
                   ?s\<lparr>nexts := (nexts ?s)(addr n := pa ! get_position (newer m) (hcode n)),
                      arrays := (arrays ?s)(a \<mapsto> pa[get_position (newer m) (hcode n) := Some n])\<rparr>)" .
  show ?thesis
    by (simp add: rehash_iter_ptr_def r d i)
qed

lemma rehash_iter_sim:
  assumes inv: "hmap_inv m h" and sz: "0 < size_f (older m)" and R: "abstracts m s h"
  shows "\<exists>w' m' h' s'. rehash_iter w m h = Some (w', m', h') \<and>
           rehash_iter_ptr w m s = Some (w', m', s') \<and> abstracts m' s' h'"
proof (rule live_older [OF inv sz])
  fix a b sa sb
  assume a: "tab (newer m) = Some a" "cells h a = Some sa" "slots_ok (newer m) sa"
    and b: "tab (older m) = Some b" "cells h b = Some sb" "slots_ok (older m) sb"
    and ab: "a \<noteq> b" and c: "migrate_pos m < length sb"
  from R have bk: "brk_m s = brk h" and cn: "chains_of (newer m) s h"
    and co: "chains_of (older m) s h"
    by (simp_all add: abstracts_def)
  from chains_ofD [OF cn a(1,2)] obtain pa where
    pa: "arrays s a = Some pa" "list_all2 (is_chain (nexts s)) pa sa" by blast
  from chains_ofD [OF co b(1,2)] obtain pb where
    pb: "arrays s b = Some pb" "list_all2 (is_chain (nexts s)) pb sb" by blast
  from pa(2) have la: "length pa = length sa" by (rule list_all2_lengthD)
  from pb(2) have lb: "length pb = length sb" by (rule list_all2_lengthD)
  show ?thesis
  proof (cases "sb ! migrate_pos m")
    case Nil
    have "read_slot (older m) h (migrate_pos m) = Some []"
      using b(1,2) c Nil by (simp add: read_slot_def slots_of_def)
    then have l: "rehash_iter w m h = Some (w, m\<lparr>migrate_pos := migrate_pos m + 1\<rparr>, h)"
      by (rule rehash_iter_empty)
    from pb(2) c have "is_chain (nexts s) (pb ! migrate_pos m) (sb ! migrate_pos m)"
      by (simp add: list_all2_conv_all_nth)
    with Nil have "pb ! migrate_pos m = None" by simp
    then have "read_ptr (older m) s (migrate_pos m) = Some None"
      using b(1) pb(1) c lb by (simp add: read_ptr_def)
    then have p: "rehash_iter_ptr w m s = Some (w, m\<lparr>migrate_pos := migrate_pos m + 1\<rparr>, s)"
      by (rule rehash_iter_ptr_empty)
    have "abstracts (m\<lparr>migrate_pos := migrate_pos m + 1\<rparr>) s h"
      using R by (simp add: abstracts_def)
    with l p show ?thesis by blast
  next
    case (Cons n rest)
    define p where "p = get_position (newer m) (hcode n)"
    define m' where "m' = m\<lparr>newer := (newer m)\<lparr>size_f := size_f (newer m) + 1\<rparr>,
                older := (older m)\<lparr>size_f := size_f (older m) - 1\<rparr>\<rparr>"
    define h' where "h' = h\<lparr>cells := (cells h)
               (b \<mapsto> sb[migrate_pos m := rest], a \<mapsto> sa[p := n # sa ! p])\<rparr>"
    define s' where "s' = s\<lparr>nexts := (nexts s)(addr n := pa ! p),
            arrays := (arrays s)
              (b \<mapsto> pb[migrate_pos m := nexts s (addr n)], a \<mapsto> pa[p := Some n])\<rparr>"
    have p: "p < length sa"
      unfolding p_def using a(3) by (rule slots_ok_position)
    have l: "rehash_iter w m h = Some (w + 1, m', h')"
      unfolding m'_def h'_def p_def
      using b(1,2) c Cons sz a(1) ab a(2) p [unfolded p_def] by (rule rehash_iter_move)
    note pop = chains_pop [OF pb(2) c Cons]
    have q: "rehash_iter_ptr w m s = Some (w + 1, m', s')"
      unfolding m'_def s'_def p_def
      using b(1) pb(1) c [folded lb] pop(1) sz a(1) ab pa(1) p [unfolded p_def, folded la]
      by (rule rehash_iter_ptr_move)
    from inv a(1,2) b(1,2) have d: "distinct (map addr (concat sa @ concat sb))"
      by (simp add: hmap_inv_def all_nodes_def nodes_of_live)
    have "sb ! migrate_pos m \<in> set sb" using c by simp
    with Cons have "n # rest \<in> set sb" by simp
    then have "n \<in> set (concat sb)" by (auto intro: bexI [of _ "n # rest"])
    with d have fa: "addr n \<notin> addr ` set (concat sa)" by auto
    from d have "distinct (map addr (concat sb))" by simp
    from distinct_pop [OF this c Cons]
    have fb: "addr n \<notin> addr ` set (concat (sb[migrate_pos m := rest]))" .
    have 1: "list_all2 (is_chain (nexts s')) (pa[p := Some n]) (sa[p := n # sa ! p])"
      using chains_push [OF pa(2) p fa] by (simp add: s'_def)
    have 2: "list_all2 (is_chain (nexts s')) (pb[migrate_pos m := nexts s (addr n)])
               (sb[migrate_pos m := rest])"
      using chains_update [OF pop(2) fb] by (simp add: s'_def)
    have "chains_of (newer m') s' h'"
      using 1 a(1) by (intro chains_ofI [where a = a]) (simp_all add: m'_def h'_def s'_def)
    moreover have "chains_of (older m') s' h'"
      using 2 b(1) ab by (intro chains_ofI [where a = b]) (simp_all add: m'_def h'_def s'_def)
    moreover have "brk_m s' = brk h'" using bk by (simp add: s'_def h'_def)
    ultimately have "abstracts m' s' h'" by (simp add: abstracts_def)
    with l q show ?thesis by blast
  qed
qed

lemma rehash_loop_sim:
  "hmap_inv m h \<Longrightarrow> abstracts m s h \<Longrightarrow>
   \<exists>m' h' s'. rehash_loop w m h = Some (m', h') \<and> rehash_loop_ptr w m s = Some (m', s') \<and>
     hmap_inv m' h' \<and> abstracts m' s' h'"
proof (induction w m h arbitrary: s rule: rehash_loop.induct)
  case (1 w m h)
  show ?case
  proof (cases "w < kRehasingWork \<and> 0 < size_f (older m)")
    case True
    from True have sz: "0 < size_f (older m)" by simp
    from rehash_iter_step [OF "1.prems"(1) sz, of w] obtain w' m1 h1 where
      step: "rehash_iter w m h = Some (w', m1, h1)" and inv1: "hmap_inv m1 h1"
      by blast
    from rehash_iter_sim [OF "1.prems"(1) sz "1.prems"(2), of w] step obtain s1 where
      pstep: "rehash_iter_ptr w m s = Some (w', m1, s1)" and R1: "abstracts m1 s1 h1"
      by auto
    from "1.IH" [OF True step refl refl inv1 R1] obtain m' h' s' where
      loop: "rehash_loop w' m1 h1 = Some (m', h')"
      and ploop: "rehash_loop_ptr w' m1 s1 = Some (m', s')"
      and r: "hmap_inv m' h'" "abstracts m' s' h'"
      by blast
    have "rehash_loop w m h = Some (m', h')"
      using True step loop by (subst rehash_loop.simps) simp
    moreover have "rehash_loop_ptr w m s = Some (m', s')"
      using True pstep ploop by (subst rehash_loop_ptr.simps) simp
    ultimately show ?thesis using r by blast
  next
    case False
    have "rehash_loop w m h = Some (m, h)"
      by (subst rehash_loop.simps) (simp only: False if_False)
    moreover have "rehash_loop_ptr w m s = Some (m, s)"
      by (subst rehash_loop_ptr.simps) (simp only: False if_False)
    ultimately show ?thesis using "1.prems" by blast
  qed
qed

lemma help_rehashing_sim:
  assumes inv: "hmap_inv m h" and R: "abstracts m s h"
  shows "\<exists>m' h' s'. help_rehashing m h = Some (m', h') \<and>
           help_rehashing_ptr m s = Some (m', s') \<and> hmap_inv m' h' \<and> abstracts m' s' h'"
proof -
  from rehash_loop_sim [OF inv R, of 0] obtain m1 h1 s1 where
    loop: "rehash_loop 0 m h = Some (m1, h1)" and ploop: "rehash_loop_ptr 0 m s = Some (m1, s1)"
    and inv1: "hmap_inv m1 h1" and R1: "abstracts m1 s1 h1"
    by blast
  show ?thesis
  proof (cases "size_f (older m1) = 0 \<and> tab (older m1) \<noteq> None")
    case True
    then obtain b where z: "size_f (older m1) = 0" and b: "tab (older m1) = Some b" by auto
    let ?m = "m1\<lparr>older := HTab_empty\<rparr>" and ?h = "h1\<lparr>cells := (cells h1)(b := None)\<rparr>"
    let ?s = "s1\<lparr>arrays := (arrays s1)(b := None)\<rparr>"
    note f = free_drained_inv [OF inv1 z b]
    have l: "help_rehashing m h = Some (?m, ?h)"
      using loop z b f(1) by (simp add: help_rehashing_def)
    from inv1 b obtain sb where sb: "cells h1 b = Some sb"
      by (auto simp: hmap_inv_def tab_ok_Some)
    from R1 have "chains_of (older m1) s1 h1" by (simp add: abstracts_def)
    from chains_ofD [OF this b sb] obtain pb where pb: "arrays s1 b = Some pb" by blast
    have "free_ptr (tab (older m1)) s1 = Some ?s"
      using b pb by (simp add: free_ptr_def)
    then have p: "help_rehashing_ptr m s = Some (?m, ?s)"
      using ploop z b by (simp add: help_rehashing_ptr_def)
    from inv1 b have ne: "tab (newer m1) \<noteq> Some b" by (auto simp: hmap_inv_def)
    from R1 have "chains_of (newer m1) s1 h1" by (simp add: abstracts_def)
    then have "chains_of (newer m1) ?s ?h"
    proof (rule chains_of_same)
      fix b' assume "tab (newer m1) = Some b'"
      with ne have "b' \<noteq> b" by auto
      then show "arrays ?s b' = arrays s1 b' \<and> cells ?h b' = cells h1 b'" by simp
    qed simp
    moreover have "chains_of HTab_empty ?s ?h"
      by (rule chains_of_null) (simp add: HTab_empty_def)
    moreover have "brk_m ?s = brk ?h" using R1 by (simp add: abstracts_def)
    ultimately have "abstracts ?m ?s ?h" by (simp add: abstracts_def)
    with l p f(2) show ?thesis by blast
  next
    case False
    have "help_rehashing m h = Some (m1, h1)"
      using loop False by (auto simp: help_rehashing_def)
    moreover have "help_rehashing_ptr m s = Some (m1, s1)"
      using ploop False by (auto simp: help_rehashing_ptr_def)
    ultimately show ?thesis using inv1 R1 by blast
  qed
qed


subsection \<open>Insert\<close>

lemma lazy_init_sim:
  assumes inv: "hmap_inv m h" and null: "tab (newer m) = None" and R: "abstracts m s h"
    and n1: "n1 = (newer m)\<lparr>tab := Some (brk h), mask_f := 3, size_f := 0\<rparr>"
    and h1: "h1 = h\<lparr>cells := (cells h)(brk h \<mapsto> replicate 4 []), brk := Suc (brk h)\<rparr>"
    and s1: "s1 = s\<lparr>arrays := (arrays s)(brk h \<mapsto> replicate 4 None), brk_m := Suc (brk h)\<rparr>"
  shows "HTab_init_ptr 4 (newer m) s = Some (n1, s1)"
    and "abstracts (m\<lparr>newer := n1\<rparr>) s1 h1"
proof -
  from R have bk: "brk_m s = brk h" by (simp add: abstracts_def)
  show "HTab_init_ptr 4 (newer m) s = Some (n1, s1)"
    using HTab_init_ptr_eq [where n = 4 and k = 2 and t = "newer m" and s = s] bk
    by (simp add: n1 s1)
  from inv null have o: "tab (older m) = None" by (auto simp: hmap_inv_def)
  have "chains_of n1 s1 h1"
    using chains_fresh_array [of "nexts s" 4]
    by (intro chains_ofI [where a = "brk h"]) (simp_all add: n1 h1 s1)
  moreover have "chains_of (older m) s1 h1" using o by (rule chains_of_null)
  ultimately show "abstracts (m\<lparr>newer := n1\<rparr>) s1 h1"
    by (simp add: abstracts_def s1 h1)
qed

lemma insert_newer_sim:
  assumes inv: "hmap_inv m h" and a: "tab (newer m) = Some a"
    and fresh: "addr node \<notin> addr ` set (all_nodes m h)" and R: "abstracts m s h"
    and ins: "HTab_insert node (newer m) h = Some (n2, h2)"
  shows "\<exists>s2. HTab_insert_ptr node (newer m) s = Some (n2, s2) \<and>
           abstracts (m\<lparr>newer := n2\<rparr>) s2 h2"
proof -
  from inv have ok: "tab_ok (newer m) h" and ne: "tab (older m) \<noteq> Some a"
    using a by (auto simp: hmap_inv_def)
  from ok a obtain sl where sl: "cells h a = Some sl" "slots_ok (newer m) sl"
    by (auto simp: tab_ok_Some)
  from R have bk: "brk_m s = brk h" and cn: "chains_of (newer m) s h"
    and co: "chains_of (older m) s h"
    by (simp_all add: abstracts_def)
  from chains_ofD [OF cn a sl(1)] obtain ps where
    ps: "arrays s a = Some ps" "list_all2 (is_chain (nexts s)) ps sl" by blast
  from ps(2) have len: "length ps = length sl" by (rule list_all2_lengthD)
  define p where "p = get_position (newer m) (hcode node)"
  define s2 where "s2 = s\<lparr>nexts := (nexts s)(addr node := ps ! p),
                          arrays := (arrays s)(a \<mapsto> ps[p := Some node])\<rparr>"
  have p: "p < length sl" unfolding p_def using sl(2) by (rule slots_ok_position)
  from HTab_insert_eq [OF a sl(1) p [unfolded p_def]] ins
  have n2: "n2 = (newer m)\<lparr>size_f := size_f (newer m) + 1\<rparr>"
    and h2: "h2 = h\<lparr>cells := (cells h)(a \<mapsto> sl[p := node # sl ! p])\<rparr>"
    by (simp_all add: p_def)
  have q: "HTab_insert_ptr node (newer m) s = Some (n2, s2)"
    unfolding n2 s2_def p_def using a ps(1) p [unfolded p_def, folded len]
    by (rule HTab_insert_ptr_eq)
  from fresh have fa: "addr node \<notin> addr ` set (concat sl)"
    and fo: "addr node \<notin> addr ` set (nodes_of (older m) h)"
    using a sl(1) by (auto simp: all_nodes_def nodes_of_live)
  have "list_all2 (is_chain (nexts s2)) (ps[p := Some node]) (sl[p := node # sl ! p])"
    using chains_push [OF ps(2) p fa] by (simp add: s2_def)
  then have "chains_of n2 s2 h2"
    using a by (intro chains_ofI [where a = a]) (simp_all add: n2 h2 s2_def)
  moreover have "chains_of (older m) s2 h2"
    using co
  proof (rule chains_of_frame)
    fix b assume "tab (older m) = Some b"
    with ne have "b \<noteq> a" by auto
    then show "arrays s2 b = arrays s b \<and> cells h2 b = cells h b" by (simp add: s2_def h2)
  next
    show "nexts s2 = (nexts s)(addr node := ps ! p)" by (simp add: s2_def)
  next
    show "addr node \<notin> addr ` set (nodes_of (older m) h)" by (rule fo)
  qed
  moreover have "brk_m s2 = brk h2" using bk by (simp add: s2_def h2)
  ultimately have "abstracts (m\<lparr>newer := n2\<rparr>) s2 h2" by (simp add: abstracts_def)
  with q show ?thesis by blast
qed

lemma trigger_rehashing_sim:
  assumes inv: "hmap_inv m h" and o: "tab (older m) = None" and a: "tab (newer m) = Some a"
    and R: "abstracts m s h" and tr: "trigger_rehashing m h = Some (m', h')"
  shows "\<exists>s'. trigger_rehashing_ptr m s = Some (m', s') \<and> abstracts m' s' h'"
proof -
  from inv have ok: "heap_ok h" "tab_ok (newer m) h" by (simp_all add: hmap_inv_def)
  from ok(2) a obtain sl where sl: "cells h a = Some sl" "slots_ok (newer m) sl"
    by (auto simp: tab_ok_Some)
  from sl(2) obtain k where k: "2 \<le> k" "Suc (mask_f (newer m)) = 2 ^ k"
    by (auto simp: slots_ok_def)
  from R have bk: "brk_m s = brk h" and cn: "chains_of (newer m) s h"
    by (simp_all add: abstracts_def)
  define n where "n = (mask_f (newer m) + 1) * 2"
  have n: "n = 2 ^ Suc k" using k(2) by (simp add: n_def)
  define t where "t = (newer m)\<lparr>tab := Some (brk h), mask_f := n - 1, size_f := 0\<rparr>"
  define h1 where "h1 = h\<lparr>cells := (cells h)(brk h \<mapsto> replicate n []), brk := Suc (brk h)\<rparr>"
  define s' where "s' = s\<lparr>arrays := (arrays s)(brk h \<mapsto> replicate n None), brk_m := Suc (brk h)\<rparr>"
  define m1 where "m1 = m\<lparr>older := newer m, newer := t, migrate_pos := 0\<rparr>"
  have "HTab_init n (newer m) h = Some (t, h1)"
    unfolding t_def h1_def using n by (rule HTab_init_eq)
  then have "trigger_rehashing m h = Some (m1, h1)"
    using o by (simp add: trigger_rehashing_def Let_def m1_def n_def)
  with tr have e: "m' = m1" "h' = h1" by simp_all
  have "HTab_init_ptr n (newer m) s = Some (t, s')"
    using HTab_init_ptr_eq [OF n, of "newer m" s] bk by (simp add: t_def s'_def)
  then have q: "trigger_rehashing_ptr m s = Some (m1, s')"
    using o by (simp add: trigger_rehashing_ptr_def Let_def m1_def n_def)
  have ab: "a < brk h" using ok(1) sl(1) by (rule live_below_brk)
  have "chains_of t s' h1"
    using chains_fresh_array [of "nexts s" n]
    by (intro chains_ofI [where a = "brk h"]) (simp_all add: t_def h1_def s'_def)
  moreover have "chains_of (newer m) s' h1"
    using cn
  proof (rule chains_of_same)
    fix b assume "tab (newer m) = Some b"
    with a ab have "b \<noteq> brk h" by auto
    then show "arrays s' b = arrays s b \<and> cells h1 b = cells h b" by (simp add: s'_def h1_def)
  qed (simp add: s'_def)
  ultimately have "abstracts m1 s' h1" by (simp add: abstracts_def m1_def s'_def h1_def)
  with q e show ?thesis by blast
qed

lemma HMap_insert_sim:
  assumes inv: "hmap_inv m h" and fresh: "addr node \<notin> addr ` set (all_nodes m h)"
    and R: "abstracts m s h"
  shows "\<exists>m' h' s'. HMap_insert node m h = Some (m', h') \<and>
           HMap_insert_ptr node m s = Some (m', s') \<and> hmap_inv m' h' \<and> abstracts m' s' h'"
proof -
  have "\<exists>n1 h1 s1 a.
          (if tab (newer m) = None then HTab_init 4 (newer m) h else Some (newer m, h))
            = Some (n1, h1) \<and>
          (if tab (newer m) = None then HTab_init_ptr 4 (newer m) s else Some (newer m, s))
            = Some (n1, s1) \<and>
          hmap_inv (m\<lparr>newer := n1\<rparr>) h1 \<and> abstracts (m\<lparr>newer := n1\<rparr>) s1 h1 \<and> tab n1 = Some a \<and>
          mset (all_nodes (m\<lparr>newer := n1\<rparr>) h1) = mset (all_nodes m h)"
  proof (cases "tab (newer m)")
    case None
    note l = lazy_init_inv [OF inv None refl refl]
    note p = lazy_init_sim [OF inv None R refl refl refl]
    show ?thesis using None l(1,2,3,4) p by simp
  next
    case (Some a)
    then show ?thesis using inv R by simp
  qed
  then obtain n1 h1 s1 a where
    e1: "(if tab (newer m) = None then HTab_init 4 (newer m) h else Some (newer m, h)) = Some (n1, h1)"
    and p1: "(if tab (newer m) = None then HTab_init_ptr 4 (newer m) s else Some (newer m, s))
               = Some (n1, s1)"
    and inv1: "hmap_inv (m\<lparr>newer := n1\<rparr>) h1" and R1: "abstracts (m\<lparr>newer := n1\<rparr>) s1 h1"
    and a: "tab n1 = Some a"
    and ms1: "mset (all_nodes (m\<lparr>newer := n1\<rparr>) h1) = mset (all_nodes m h)"
    by blast
  have a1: "tab (newer (m\<lparr>newer := n1\<rparr>)) = Some a" using a by simp
  have fresh1: "addr node \<notin> addr ` set (all_nodes (m\<lparr>newer := n1\<rparr>) h1)"
    using fresh mset_eq_setD [OF ms1] by simp
  from insert_newer_inv [OF inv1 a1 fresh1] obtain n2 h2 where
    e2: "HTab_insert node n1 h1 = Some (n2, h2)"
    and inv2: "hmap_inv (m\<lparr>newer := n2\<rparr>) h2"
    by auto
  from insert_newer_sim [OF inv1 a1 fresh1 R1] e2 obtain s2 where
    p2: "HTab_insert_ptr node n1 s1 = Some (n2, s2)"
    and R2: "abstracts (m\<lparr>newer := n2\<rparr>) s2 h2"
    by auto
  define m2 where "m2 = m\<lparr>newer := n2\<rparr>"
  define due where "due = (tab (older m2) = None \<and>
               (mask_f (newer m2) + 1) * kMaxLoadFactor \<le> size_f (newer m2))"
  have a2: "tab (newer m2) = Some a"
    using insert_newer_inv [OF inv1 a1 fresh1] e2 a by (auto simp: m2_def)
  have "\<exists>m3 h3 s3.
          (let m2 = m\<lparr>newer := n2\<rparr> in
           if tab (older m2) = None
           then (let threshold = (mask_f (newer m2) + 1) * kMaxLoadFactor in
                 if threshold \<le> size_f (newer m2) then trigger_rehashing m2 h2
                 else Some (m2, h2))
           else Some (m2, h2)) = Some (m3, h3) \<and>
          (let m2 = m\<lparr>newer := n2\<rparr> in
           if tab (older m2) = None
           then (let threshold = (mask_f (newer m2) + 1) * kMaxLoadFactor in
                 if threshold \<le> size_f (newer m2) then trigger_rehashing_ptr m2 s2
                 else Some (m2, s2))
           else Some (m2, s2)) = Some (m3, s3) \<and>
          hmap_inv m3 h3 \<and> abstracts m3 s3 h3"
  proof (cases due)
    case True
    then have o: "tab (older m2) = None"
      and th: "(mask_f (newer m2) + 1) * kMaxLoadFactor \<le> size_f (newer m2)"
      by (simp_all add: due_def)
    from trigger_rehashing_inv [OF inv2 [folded m2_def] o a2] obtain m3 h3 where
      tr: "trigger_rehashing m2 h2 = Some (m3, h3)" and inv3: "hmap_inv m3 h3"
      by blast
    from trigger_rehashing_sim [OF inv2 [folded m2_def] o a2 R2 [folded m2_def] tr]
    obtain s3 where ptr: "trigger_rehashing_ptr m2 s2 = Some (m3, s3)"
      and R3: "abstracts m3 s3 h3"
      by blast
    show ?thesis
      unfolding Let_def m2_def [symmetric] using o th tr ptr inv3 R3 by simp
  next
    case False
    then have "\<not> (tab (older m2) = None \<and>
                 (mask_f (newer m2) + 1) * kMaxLoadFactor \<le> size_f (newer m2))"
      by (simp add: due_def)
    then show ?thesis
      unfolding Let_def m2_def [symmetric]
      using inv2 [folded m2_def] R2 [folded m2_def] by auto
  qed
  then obtain m3 h3 s3 where
    e3: "(let m2 = m\<lparr>newer := n2\<rparr> in
           if tab (older m2) = None
           then (let threshold = (mask_f (newer m2) + 1) * kMaxLoadFactor in
                 if threshold \<le> size_f (newer m2) then trigger_rehashing m2 h2
                 else Some (m2, h2))
           else Some (m2, h2)) = Some (m3, h3)"
    and p3: "(let m2 = m\<lparr>newer := n2\<rparr> in
           if tab (older m2) = None
           then (let threshold = (mask_f (newer m2) + 1) * kMaxLoadFactor in
                 if threshold \<le> size_f (newer m2) then trigger_rehashing_ptr m2 s2
                 else Some (m2, s2))
           else Some (m2, s2)) = Some (m3, s3)"
    and inv3: "hmap_inv m3 h3" and R3: "abstracts m3 s3 h3"
    by blast
  have f1: "HMap_insert node m h = help_rehashing m3 h3"
    by (simp only: HMap_insert_def e1 e2 e3 bind.bind_lunit prod.case)
  have g1: "HMap_insert_ptr node m s = help_rehashing_ptr m3 s3"
    by (simp only: HMap_insert_ptr_def p1 p2 p3 bind.bind_lunit prod.case)
  from help_rehashing_sim [OF inv3 R3] show ?thesis
    unfolding f1 g1 .
qed

subsection \<open>Traversal\<close>

lemma foreach_from_sim:
  assumes "tab t = Some a" "cells h a = Some sl" "arrays s a = Some ps"
    and "list_all2 (is_chain (nexts s)) ps sl"
  shows "foreach_from_ptr f t s i c = foreach_from f t h i c"
  using assms
proof (induction f t h i c rule: foreach_from.induct)
  case (1 f t h i c)
  note a = "1.prems"
  from a(4) have len: "length ps = length sl" by (rule list_all2_lengthD)
  show ?case
  proof (cases "mask_f t \<noteq> 0 \<and> i \<le> mask_f t")
    case False
    have "foreach_from_ptr f t s i c = Some (True, c)"
      by (subst foreach_from_ptr.simps) (simp only: False if_False)
    moreover have "foreach_from f t h i c = Some (True, c)"
      by (subst foreach_from.simps) (simp only: False if_False)
    ultimately show ?thesis by simp
  next
    case True
    show ?thesis
    proof (cases "i < length sl")
      case False
      have "read_ptr t s i = None" using a(1,3) False len by (simp add: read_ptr_def)
      then have "foreach_from_ptr f t s i c = None"
        using True by (subst foreach_from_ptr.simps) simp
      moreover have "read_slot t h i = None"
        using a(1,2) False by (simp add: read_slot_def slots_of_def)
      then have "foreach_from f t h i c = None"
        using True by (subst foreach_from.simps) simp
      ultimately show ?thesis by simp
    next
      case i: True
      have rp: "read_ptr t s i = Some (ps ! i)" using a(1,3) i len by (simp add: read_ptr_def)
      have rs: "read_slot t h i = Some (sl ! i)"
        using a(1,2) i by (simp add: read_slot_def slots_of_def)
      from a(4) i have "is_chain (nexts s) (ps ! i) (sl ! i)"
        by (simp add: list_all2_conv_all_nth)
      then have v: "visit_links f (nexts s) (ps ! i) c = Some (visit_chain f (sl ! i) c)"
        by (rule visit_links_chain)
      obtain g c' where vc: "visit_chain f (sl ! i) c = (g, c')"
        by (cases "visit_chain f (sl ! i) c")
      show ?thesis
      proof (cases g)
        case False
        have "foreach_from_ptr f t s i c = Some (False, c')"
          using True rp v vc False by (subst foreach_from_ptr.simps) simp
        moreover have "foreach_from f t h i c = Some (False, c')"
          using True rs vc False by (subst foreach_from.simps) simp
        ultimately show ?thesis by simp
      next
        case g: True
        have "foreach_from_ptr f t s i c = foreach_from_ptr f t s (Suc i) c'"
          using True rp v vc g by (subst foreach_from_ptr.simps) simp
        moreover have "foreach_from f t h i c = foreach_from f t h (Suc i) c'"
          using True rs vc g by (subst foreach_from.simps) simp
        moreover have "foreach_from_ptr f t s (Suc i) c' = foreach_from f t h (Suc i) c'"
          using "1.IH" True rs vc g a by auto
        ultimately show ?thesis by simp
      qed
    qed
  qed
qed

lemma HTab_foreach_sim:
  assumes ok: "tab_ok t h" and c: "chains_of t s h"
  shows "HTab_foreach_ptr f arg t s = HTab_foreach f arg t h"
proof (cases "tab t")
  case None
  with ok have z: "mask_f t = 0" by (simp add: tab_ok_def)
  have "foreach_from_ptr f t s 0 arg = Some (True, arg)"
    using z by (subst foreach_from_ptr.simps) simp
  moreover have "foreach_from f t h 0 arg = Some (True, arg)"
    using z by (subst foreach_from.simps) simp
  ultimately show ?thesis by (simp add: HTab_foreach_ptr_def HTab_foreach_def)
next
  case (Some a)
  with ok obtain sl where sl: "cells h a = Some sl" by (auto simp: tab_ok_Some)
  from chains_ofD [OF c Some sl] obtain ps where
    ps: "arrays s a = Some ps" "list_all2 (is_chain (nexts s)) ps sl" by blast
  show ?thesis
    unfolding HTab_foreach_ptr_def HTab_foreach_def
    using Some sl ps by (rule foreach_from_sim)
qed

lemma HMap_foreach_sim:
  assumes inv: "hmap_inv m h" and R: "abstracts m s h"
  shows "HMap_foreach_ptr f arg m s = HMap_foreach f arg m h"
proof -
  from inv have ok: "tab_ok (newer m) h" "tab_ok (older m) h" by (simp_all add: hmap_inv_def)
  from R have c: "chains_of (newer m) s h" "chains_of (older m) s h"
    by (simp_all add: abstracts_def)
  show ?thesis
    by (simp add: HMap_foreach_ptr_def HMap_foreach_def
        HTab_foreach_sim [OF ok(1) c(1)] HTab_foreach_sim [OF ok(2) c(2)]
        split: option.splits prod.splits bool.splits)
qed

subsection \<open>Runs of insert\<close>

lemma abstracts_start: "brk_m s = brk h \<Longrightarrow> abstracts HMap_empty s h"
  by (simp add: abstracts_def HMap_empty_def HTab_empty_def chains_of_null)

lemma insert_all_sim:
  assumes "reachable L m h" "abstracts m s h" "distinct (map addr ns)"
    "addr ` set ns \<inter> addr ` set_mset L = {}"
  shows "\<exists>m' h' s'. insert_all ns m h = Some (m', h') \<and> insert_all_ptr ns m s = Some (m', s') \<and>
           reachable (L + mset ns) m' h' \<and> abstracts m' s' h'"
  using assms
proof (induction ns arbitrary: L m h s)
  case Nil
  then show ?case by simp
next
  case (Cons n ns)
  from reachable_inv [OF Cons.prems(1)] have inv: "hmap_inv m h" and L: "mset (all_nodes m h) = L"
    by simp_all
  from L have S: "set (all_nodes m h) = set_mset L" by (metis set_mset_mset)
  from Cons.prems(4) have f: "addr n \<notin> addr ` set_mset L" by auto
  with S have "addr n \<notin> addr ` set (all_nodes m h)" by simp
  from HMap_insert_sim [OF inv this Cons.prems(2)] obtain m1 h1 s1 where
    i: "HMap_insert n m h = Some (m1, h1)" "HMap_insert_ptr n m s = Some (m1, s1)"
    and R1: "abstracts m1 s1 h1"
    by blast
  have r1: "reachable (add_mset n L) m1 h1"
    using Cons.prems(1) f i(1) by (rule reachable.insert)
  have d: "distinct (map addr ns)" using Cons.prems(3) by simp
  have j: "addr ` set ns \<inter> addr ` set_mset (add_mset n L) = {}"
    using Cons.prems(3,4) by auto
  from Cons.IH [OF r1 R1 d j] obtain m' h' s' where
    "insert_all ns m1 h1 = Some (m', h')" "insert_all_ptr ns m1 s1 = Some (m', s')"
    "reachable (add_mset n L + mset ns) m' h'" "abstracts m' s' h'"
    by blast
  with i show ?case by (intro exI [of _ m'] exI [of _ h'] exI [of _ s']) simp
qed

subsection \<open>Lookup\<close>

lemma HTab_lookup_ptr_live:
  assumes "tab t = Some a" "cells h a = Some sl" "slots_ok t sl"
    and "arrays s a = Some ps" "list_all2 (is_chain (nexts s)) ps sl"
  shows "HTab_lookup_ptr key eq t s =
     Some (map_option (incoming_of (Slot (get_position t (hcode key)))
                         (sl ! get_position t (hcode key)))
             (scan key eq (sl ! get_position t (hcode key)) 0))"
proof -
  let ?p = "get_position t (hcode key)"
  have p: "?p < length sl" using assms(3) by (rule slots_ok_position)
  from assms(5) have len: "length ps = length sl" by (rule list_all2_lengthD)
  from assms(5) p have "is_chain (nexts s) (ps ! ?p) (sl ! ?p)"
    by (simp add: list_all2_conv_all_nth)
  from scan_links_chain [OF this, of key eq "Slot ?p" 0]
  show ?thesis using assms(1,4) p len by (simp add: HTab_lookup_ptr_def read_ptr_def Let_def)
qed

lemma deref_ptr_eq:
  assumes "tab t = Some a" "arrays s a = Some ps" "list_all2 (is_chain (nexts s)) ps sl"
    and "p < length sl" "i < length (sl ! p)"
  shows "deref_ptr (incoming_of (Slot p) (sl ! p) i) t s = Some (Some (sl ! p ! i))"
proof -
  from assms(3) have len: "length ps = length sl" by (rule list_all2_lengthD)
  from assms(3,4) have "is_chain (nexts s) (ps ! p) (sl ! p)"
    by (simp add: list_all2_conv_all_nth)
  from is_chain_nth [OF this assms(5)] show ?thesis
    using assms(1,2,4) len by (cases i) (simp_all add: deref_ptr_def read_ptr_def)
qed

text \<open>A lookup in a table, in the lists and in the links.\<close>

lemma HTab_lookup_sim [consumes 2, case_names miss hit]:
  assumes ok: "tab_ok t h" and c: "chains_of t s h"
  obtains (miss) "HTab_lookup key eq t h = Some None" "HTab_lookup_ptr key eq t s = Some None"
  | (hit) p i a sl ps where "HTab_lookup key eq t h = Some (Some (Link p i))"
      "HTab_lookup_ptr key eq t s = Some (Some (incoming_of (Slot p) (sl ! p) i))"
      "tab t = Some a" "cells h a = Some sl" "slots_ok t sl"
      "arrays s a = Some ps" "list_all2 (is_chain (nexts s)) ps sl"
      "p < length sl" "i < length (sl ! p)"
proof (cases "tab t")
  case None
  have "HTab_lookup key eq t h = Some None" using None by (simp add: HTab_lookup_def)
  moreover have "HTab_lookup_ptr key eq t s = Some None"
    using None by (simp add: HTab_lookup_ptr_def)
  ultimately show ?thesis by (rule miss)
next
  case (Some a)
  with ok obtain sl where sl: "cells h a = Some sl" "slots_ok t sl" by (auto simp: tab_ok_Some)
  from chains_ofD [OF c Some sl(1)] obtain ps where
    ps: "arrays s a = Some ps" "list_all2 (is_chain (nexts s)) ps sl" by blast
  let ?p = "get_position t (hcode key)"
  have p: "?p < length sl" using sl(2) by (rule slots_ok_position)
  note l = HTab_lookup_live [OF Some sl, of key eq]
  note q = HTab_lookup_ptr_live [OF Some sl ps, of key eq]
  show ?thesis
  proof (cases "scan key eq (sl ! ?p) 0")
    case None
    show ?thesis by (rule miss) (simp_all add: l q None)
  next
    case (Some i)
    from scan_Some [OF Some] have i: "i < length (sl ! ?p)" by simp
    have "HTab_lookup key eq t h = Some (Some (Link ?p i))" by (simp add: l Some)
    moreover have "HTab_lookup_ptr key eq t s = Some (Some (incoming_of (Slot ?p) (sl ! ?p) i))"
      by (simp add: q Some)
    ultimately show ?thesis
      using \<open>tab t = Some a\<close> sl ps p i by (rule hit)
  qed
qed

lemma HMap_lookup_sim:
  assumes inv: "hmap_inv m h" and R: "abstracts m s h"
  shows "\<exists>r m' h' s'. HMap_lookup key eq m h = Some (r, m', h') \<and>
           HMap_lookup_ptr key eq m s = Some (r, m', s') \<and> hmap_inv m' h' \<and> abstracts m' s' h'"
proof -
  from help_rehashing_sim [OF inv R] obtain m1 h1 s1 where
    hr: "help_rehashing m h = Some (m1, h1)" and pr: "help_rehashing_ptr m s = Some (m1, s1)"
    and inv1: "hmap_inv m1 h1" and R1: "abstracts m1 s1 h1"
    by blast
  from inv1 have okn: "tab_ok (newer m1) h1" and oko: "tab_ok (older m1) h1"
    by (simp_all add: hmap_inv_def)
  from R1 have cn: "chains_of (newer m1) s1 h1" and co: "chains_of (older m1) s1 h1"
    by (simp_all add: abstracts_def)
  have "\<exists>r. HMap_lookup key eq m h = Some (r, m1, h1) \<and>
            HMap_lookup_ptr key eq m s = Some (r, m1, s1)"
    using okn cn
  proof (cases rule: HTab_lookup_sim [where key = key and eq = eq])
    case (hit p i a sl ps)
    have "deref (Link p i) (newer m1) h1 = Some (sl ! p ! i)"
      using hit(3,4,8,9) by (rule deref_eq)
    then have "HMap_lookup key eq m h = Some (Some (sl ! p ! i), m1, h1)"
      using hr hit(1) by (simp add: HMap_lookup_def)
    moreover have "deref_ptr (incoming_of (Slot p) (sl ! p) i) (newer m1) s1 = Some (Some (sl ! p ! i))"
      using hit(3,6,7,8,9) by (rule deref_ptr_eq)
    then have "HMap_lookup_ptr key eq m s = Some (Some (sl ! p ! i), m1, s1)"
      using pr hit(2) by (simp add: HMap_lookup_ptr_def)
    ultimately show ?thesis by simp
  next
    case miss
    note missn = this
    from oko co show ?thesis
    proof (cases rule: HTab_lookup_sim [where key = key and eq = eq])
      case (hit p i a sl ps)
      have "deref (Link p i) (older m1) h1 = Some (sl ! p ! i)"
        using hit(3,4,8,9) by (rule deref_eq)
      then have "HMap_lookup key eq m h = Some (Some (sl ! p ! i), m1, h1)"
        using hr missn hit(1) by (simp add: HMap_lookup_def)
      moreover have "deref_ptr (incoming_of (Slot p) (sl ! p) i) (older m1) s1 = Some (Some (sl ! p ! i))"
        using hit(3,6,7,8,9) by (rule deref_ptr_eq)
      then have "HMap_lookup_ptr key eq m s = Some (Some (sl ! p ! i), m1, s1)"
        using pr missn hit(2) by (simp add: HMap_lookup_ptr_def)
      ultimately show ?thesis by simp
    next
      case miss
      have "HMap_lookup key eq m h = Some (None, m1, h1)"
        using hr missn miss by (simp add: HMap_lookup_def)
      moreover have "HMap_lookup_ptr key eq m s = Some (None, m1, s1)"
        using pr missn miss by (simp add: HMap_lookup_ptr_def)
      ultimately show ?thesis by simp
    qed
  qed
  with inv1 R1 show ?thesis by blast
qed

subsection \<open>Delete\<close>

lemma distinct_slot_other:
  assumes d: "distinct (map addr (concat sl))" and p: "p < length sl" and x: "x \<in> set (sl ! p)"
  shows "addr x \<notin> addr ` set (concat (sl[p := []]))"
proof -
  have a: "sl = take p sl @ (sl ! p) # drop (Suc p) sl"
    using p by (rule id_take_nth_drop)
  have b: "sl[p := []] = take p sl @ [] # drop (Suc p) sl"
    using p by (rule upd_conv_take_nth_drop)
  define A where "A = map addr (concat (take p sl))"
  define B where "B = map addr (sl ! p)"
  define C where "C = map addr (concat (drop (Suc p) sl))"
  from d have "distinct (A @ B @ C)"
    by (subst (asm) a) (simp add: A_def B_def C_def)
  then have "set B \<inter> set A = {}" and "set B \<inter> set C = {}"
    by auto
  moreover from x have "addr x \<in> set B" by (simp add: B_def)
  ultimately have "addr x \<notin> set A" and "addr x \<notin> set C" by blast+
  then have "addr x \<notin> addr ` set (concat (take p sl))"
    and "addr x \<notin> addr ` set (concat (drop (Suc p) sl))"
    by (simp_all add: A_def C_def)
  then have "addr x \<notin> addr ` set (concat (take p sl) @ concat (drop (Suc p) sl))"
    by (simp add: image_Un)
  then show ?thesis by (subst b) simp
qed

lemma distinct_slot:
  assumes d: "distinct (map addr (concat sl))" and p: "p < length sl"
  shows "distinct (map addr (sl ! p))"
proof -
  have a: "sl = take p sl @ (sl ! p) # drop (Suc p) sl"
    using p by (rule id_take_nth_drop)
  from d have "distinct (map addr (concat (take p sl @ (sl ! p) # drop (Suc p) sl)))"
    by (subst (asm) a) simp
  then show ?thesis by simp
qed

lemma chains_update_except:
  assumes c: "list_all2 (is_chain nx) ps sl" and p: "p < length sl"
    and fresh: "a \<notin> addr ` set (concat (sl[p := []]))"
    and q: "is_chain (nx(a := v)) q ys"
  shows "list_all2 (is_chain (nx(a := v))) (ps[p := q]) (sl[p := ys])"
proof -
  have "is_chain nx None []" by simp
  with c have "list_all2 (is_chain nx) (ps[p := None]) (sl[p := []])"
    by (rule list_all2_update_cong)
  from chains_update [OF this fresh]
  have "list_all2 (is_chain (nx(a := v))) (ps[p := None]) (sl[p := []])" .
  from list_all2_update_cong [OF this q, of p] show ?thesis
    by (simp only: list_update_overwrite)
qed

text \<open>Taking a node that is not the head out of a chain: its predecessor gets its
  successor.\<close>

lemma chain_unlink:
  "is_chain nx p xs \<Longrightarrow> distinct (map addr xs) \<Longrightarrow> Suc k < length xs \<Longrightarrow>
   is_chain (nx(addr (xs ! k) := nx (addr (xs ! Suc k)))) p
     (take (Suc k) xs @ drop (Suc (Suc k)) xs)"
proof (induction xs arbitrary: p k)
  case Nil
  then show ?case by simp
next
  case (Cons x rest)
  from Cons.prems have p: "p = Some x" and c: "is_chain nx (nx (addr x)) rest"
    and nx: "addr x \<notin> addr ` set rest" and d: "distinct (map addr rest)"
    by auto
  show ?case
  proof (cases k)
    case 0
    with Cons.prems(3) obtain y rest' where r: "rest = y # rest'" by (cases rest) auto
    define nx' where "nx' = nx(addr x := nx (addr y))"
    have e: "nx' (addr x) = nx (addr y)" by (simp add: nx'_def)
    from c r have ch: "is_chain nx (nx (addr y)) rest'" by simp
    from nx r have fr: "addr x \<notin> addr ` set rest'" by auto
    have "is_chain nx' (nx (addr y)) rest'"
      unfolding nx'_def using is_chain_update [OF fr] ch by blast
    then have t: "is_chain nx' p (x # rest')" by (simp add: p e)
    have g: "(x # rest) ! k = x" "(x # rest) ! Suc k = y"
      "take (Suc k) (x # rest) @ drop (Suc (Suc k)) (x # rest) = x # rest'"
      by (simp_all add: 0 r)
    show ?thesis unfolding g using t unfolding nx'_def .
  next
    case (Suc k')
    with Cons.prems(3) have k': "Suc k' < length rest" by simp
    then have "rest ! k' \<in> set rest" by simp
    then have "addr (rest ! k') \<in> addr ` set rest" by (rule imageI)
    with nx have ne: "addr (rest ! k') \<noteq> addr x" by metis
    define nx' where "nx' = nx(addr (rest ! k') := nx (addr (rest ! Suc k')))"
    have e: "nx' (addr x) = nx (addr x)" using ne by (simp add: nx'_def)
    from Cons.IH [OF c d k']
    have "is_chain nx' (nx (addr x)) (take (Suc k') rest @ drop (Suc (Suc k')) rest)"
      unfolding nx'_def .
    then have t: "is_chain nx' p (x # take (Suc k') rest @ drop (Suc (Suc k')) rest)"
      by (simp add: p e)
    have g: "(x # rest) ! k = rest ! k'" "(x # rest) ! Suc k = rest ! Suc k'"
      "take (Suc k) (x # rest) @ drop (Suc (Suc k)) (x # rest) =
         x # take (Suc k') rest @ drop (Suc (Suc k')) rest"
      by (simp_all add: Suc)
    show ?thesis unfolding g using t unfolding nx'_def .
  qed
qed

lemma HTab_detach_ptr_next:
  assumes "nexts s a = Some x" "0 < size_f t"
  shows "HTab_detach_ptr (Next_of a) t s =
    Some (x, t\<lparr>size_f := size_f t - 1\<rparr>, s\<lparr>nexts := (nexts s)(a := nexts s (addr x))\<rparr>)"
  using assms by (simp add: HTab_detach_ptr_def deref_ptr_def)

lemma HTab_detach_sim:
  assumes a: "tab t = Some a" "cells h a = Some sl" "slots_ok t sl"
    and ps: "arrays s a = Some ps" "list_all2 (is_chain (nexts s)) ps sl"
    and p: "p < length sl" and i: "i < length (sl ! p)"
    and d: "distinct (map addr (concat sl))"
  shows "\<exists>s' ps' x v.
           HTab_detach_ptr (incoming_of (Slot p) (sl ! p) i) t s =
             Some (sl ! p ! i, t\<lparr>size_f := size_f t - 1\<rparr>, s') \<and>
           arrays s' = (arrays s)(a \<mapsto> ps') \<and> brk_m s' = brk_m s \<and>
           list_all2 (is_chain (nexts s')) ps' (sl[p := take i (sl ! p) @ drop (Suc i) (sl ! p)]) \<and>
           x \<in> set (sl ! p) \<and> nexts s' = (nexts s)(addr x := v)"
proof -
  have sz: "0 < size_f t" using a(3) p i by (rule removed_size)
  from ps(2) have len: "length ps = length sl" by (rule list_all2_lengthD)
  from ps(2) p have c: "is_chain (nexts s) (ps ! p) (sl ! p)"
    by (simp add: list_all2_conv_all_nth)
  show ?thesis
  proof (cases i)
    case 0
    with i obtain x rest where n: "sl ! p = x # rest" by (cases "sl ! p") auto
    note pop = chains_pop [OF ps(2) p n]
    let ?s = "s\<lparr>arrays := (arrays s)(a \<mapsto> ps[p := nexts s (addr x)])\<rparr>"
    have "HTab_detach_ptr (Slot p) t s = Some (x, t\<lparr>size_f := size_f t - 1\<rparr>, ?s)"
      using a(1) ps(1) p [folded len] pop(1) sz by (rule HTab_detach_ptr_eq)
    then have 1: "HTab_detach_ptr (incoming_of (Slot p) (sl ! p) i) t s =
             Some (sl ! p ! i, t\<lparr>size_f := size_f t - 1\<rparr>, ?s)"
      by (simp add: 0 n)
    have 2: "list_all2 (is_chain (nexts ?s)) (ps[p := nexts s (addr x)])
               (sl[p := take i (sl ! p) @ drop (Suc i) (sl ! p)])"
      using pop(2) by (simp add: 0 n)
    have 3: "x \<in> set (sl ! p)" by (simp add: n)
    have 4: "nexts ?s = (nexts s)(addr x := nexts s (addr x))" by simp
    show ?thesis
      by (rule exI [of _ ?s], rule exI [of _ "ps[p := nexts s (addr x)]"],
          rule exI [of _ x], rule exI [of _ "nexts s (addr x)"])
         (intro conjI 1 2 3 4, simp_all)
  next
    case (Suc k)
    let ?x = "sl ! p ! k" and ?n = "sl ! p ! Suc k"
    let ?s = "s\<lparr>nexts := (nexts s)(addr ?x := nexts s (addr ?n))\<rparr>"
    let ?ys = "take (Suc k) (sl ! p) @ drop (Suc (Suc k)) (sl ! p)"
    from i Suc have k: "Suc k < length (sl ! p)" by simp
    from is_chain_nth [OF c k] have nx: "nexts s (addr ?x) = Some ?n" by simp
    have "HTab_detach_ptr (Next_of (addr ?x)) t s = Some (?n, t\<lparr>size_f := size_f t - 1\<rparr>, ?s)"
      using nx sz by (rule HTab_detach_ptr_next)
    then have 1: "HTab_detach_ptr (incoming_of (Slot p) (sl ! p) i) t s =
             Some (sl ! p ! i, t\<lparr>size_f := size_f t - 1\<rparr>, ?s)"
      by (simp add: Suc)
    have x: "?x \<in> set (sl ! p)" using k by simp
    from distinct_slot_other [OF d p x]
    have fresh: "addr ?x \<notin> addr ` set (concat (sl[p := []]))" .
    from chain_unlink [OF c distinct_slot [OF d p] k]
    have "is_chain ((nexts s)(addr ?x := nexts s (addr ?n))) (ps ! p) ?ys" .
    from chains_update_except [OF ps(2) p fresh this]
    have 2: "list_all2 (is_chain (nexts ?s)) ps
               (sl[p := take i (sl ! p) @ drop (Suc i) (sl ! p)])"
      by (simp add: Suc)
    have 3: "arrays ?s = (arrays s)(a \<mapsto> ps)" using ps(1) by (simp add: map_upd_triv)
    have 4: "nexts ?s = (nexts s)(addr ?x := nexts s (addr ?n))" by simp
    show ?thesis
      by (rule exI [of _ ?s], rule exI [of _ ps],
          rule exI [of _ ?x], rule exI [of _ "nexts s (addr ?n)"])
         (intro conjI 1 2 3 4 x, simp)
  qed
qed

lemma hm_delete_sim:
  assumes inv: "hmap_inv m h" and R: "abstracts m s h"
  shows "\<exists>r m' h' s'. hm_delete key eq m h = Some (r, m', h') \<and>
           hm_delete_ptr key eq m s = Some (r, m', s') \<and> hmap_inv m' h' \<and> abstracts m' s' h'"
proof -
  from help_rehashing_sim [OF inv R] obtain m1 h1 s1 where
    hr: "help_rehashing m h = Some (m1, h1)" and pr: "help_rehashing_ptr m s = Some (m1, s1)"
    and inv1: "hmap_inv m1 h1" and R1: "abstracts m1 s1 h1"
    by blast
  from inv1 have okn: "tab_ok (newer m1) h1" and oko: "tab_ok (older m1) h1"
    and dist: "distinct (map addr (nodes_of (newer m1) h1 @ nodes_of (older m1) h1))"
    and ne: "tab (older m1) \<noteq> None \<longrightarrow> tab (newer m1) \<noteq> tab (older m1)"
    by (simp_all add: hmap_inv_def all_nodes_def)
  from R1 have cn: "chains_of (newer m1) s1 h1" and co: "chains_of (older m1) s1 h1"
    and bk: "brk_m s1 = brk h1"
    by (simp_all add: abstracts_def)
  from okn cn show ?thesis
  proof (cases rule: HTab_lookup_sim [where key = key and eq = eq])
    case (hit p i a sl ps)
    let ?m = "m1\<lparr>newer := (newer m1)\<lparr>size_f := size_f (newer m1) - 1\<rparr>\<rparr>"
    let ?h = "h1\<lparr>cells := (cells h1)(a \<mapsto> sl[p := take i (sl ! p) @ drop (Suc i) (sl ! p)])\<rparr>"
    have "HTab_detach (Link p i) (newer m1) h1 =
            Some (sl ! p ! i, (newer m1)\<lparr>size_f := size_f (newer m1) - 1\<rparr>, ?h)"
      using hit(3,4,8,9) removed_size [OF hit(5,8,9)] by (rule HTab_detach_eq)
    then have l: "hm_delete key eq m h = Some (Some (sl ! p ! i), ?m, ?h)"
      using hr hit(1) by (simp add: hm_delete_def)
    note dinv = detach_newer_inv [OF inv1 hit(3,4,5,8,9) refl refl]
    from dist hit(3,4) have d: "distinct (map addr (concat sl))"
      by (simp add: nodes_of_live)
    from HTab_detach_sim [OF hit(3,4,5,6,7,8,9) d] obtain s' ps' x v where
      dp: "HTab_detach_ptr (incoming_of (Slot p) (sl ! p) i) (newer m1) s1 =
             Some (sl ! p ! i, (newer m1)\<lparr>size_f := size_f (newer m1) - 1\<rparr>, s')"
      and ar: "arrays s' = (arrays s1)(a \<mapsto> ps')" and b': "brk_m s' = brk_m s1"
      and ch: "list_all2 (is_chain (nexts s')) ps' (sl[p := take i (sl ! p) @ drop (Suc i) (sl ! p)])"
      and x: "x \<in> set (sl ! p)" and nx: "nexts s' = (nexts s1)(addr x := v)"
      by blast
    have q: "hm_delete_ptr key eq m s = Some (Some (sl ! p ! i), ?m, s')"
      using pr hit(2) dp by (simp add: hm_delete_ptr_def)
    have "sl ! p \<in> set sl" using hit(8) by simp
    with x have "x \<in> set (nodes_of (newer m1) h1)" using hit(3,4) by (auto simp: nodes_of_live)
    with dist have fo: "addr x \<notin> addr ` set (nodes_of (older m1) h1)" by auto
    have "chains_of (newer ?m) s' ?h"
      using ch hit(3) by (intro chains_ofI [where a = a]) (simp_all add: ar)
    moreover have "chains_of (older m1) s' ?h"
      using co
    proof (rule chains_of_frame)
      fix b assume "tab (older m1) = Some b"
      with ne hit(3) have "b \<noteq> a" by auto
      then show "arrays s' b = arrays s1 b \<and> cells ?h b = cells h1 b" by (simp add: ar)
    qed (rule nx, rule fo)
    moreover have "brk_m s' = brk ?h" using b' bk by simp
    ultimately have "abstracts ?m s' ?h" by (simp add: abstracts_def)
    with l q dinv(1) show ?thesis by blast
  next
    case miss
    note missn = this
    from oko co show ?thesis
    proof (cases rule: HTab_lookup_sim [where key = key and eq = eq])
      case (hit p i b sl ps)
      let ?m = "m1\<lparr>older := (older m1)\<lparr>size_f := size_f (older m1) - 1\<rparr>\<rparr>"
      let ?h = "h1\<lparr>cells := (cells h1)(b \<mapsto> sl[p := take i (sl ! p) @ drop (Suc i) (sl ! p)])\<rparr>"
      have "HTab_detach (Link p i) (older m1) h1 =
              Some (sl ! p ! i, (older m1)\<lparr>size_f := size_f (older m1) - 1\<rparr>, ?h)"
        using hit(3,4,8,9) removed_size [OF hit(5,8,9)] by (rule HTab_detach_eq)
      then have l: "hm_delete key eq m h = Some (Some (sl ! p ! i), ?m, ?h)"
        using hr missn(1) hit(1) by (simp add: hm_delete_def)
      note dinv = detach_older_inv [OF inv1 hit(3,4,5,8,9) refl refl]
      from dist hit(3,4) have d: "distinct (map addr (concat sl))"
        by (simp add: nodes_of_live)
      from HTab_detach_sim [OF hit(3,4,5,6,7,8,9) d] obtain s' ps' x v where
        dp: "HTab_detach_ptr (incoming_of (Slot p) (sl ! p) i) (older m1) s1 =
               Some (sl ! p ! i, (older m1)\<lparr>size_f := size_f (older m1) - 1\<rparr>, s')"
        and ar: "arrays s' = (arrays s1)(b \<mapsto> ps')" and b': "brk_m s' = brk_m s1"
        and ch: "list_all2 (is_chain (nexts s')) ps' (sl[p := take i (sl ! p) @ drop (Suc i) (sl ! p)])"
        and x: "x \<in> set (sl ! p)" and nx: "nexts s' = (nexts s1)(addr x := v)"
        by blast
      have q: "hm_delete_ptr key eq m s = Some (Some (sl ! p ! i), ?m, s')"
        using pr missn(2) hit(2) dp by (simp add: hm_delete_ptr_def)
      have "sl ! p \<in> set sl" using hit(8) by simp
      with x have "x \<in> set (nodes_of (older m1) h1)" using hit(3,4) by (auto simp: nodes_of_live)
      with dist have fo: "addr x \<notin> addr ` set (nodes_of (newer m1) h1)" by auto
      have "chains_of (older ?m) s' ?h"
        using ch hit(3) by (intro chains_ofI [where a = b]) (simp_all add: ar)
      moreover have "chains_of (newer m1) s' ?h"
        using cn
      proof (rule chains_of_frame)
        fix a assume "tab (newer m1) = Some a"
        with ne hit(3) have "a \<noteq> b" by auto
        then show "arrays s' a = arrays s1 a \<and> cells ?h a = cells h1 a" by (simp add: ar)
      qed (rule nx, rule fo)
      moreover have "brk_m s' = brk ?h" using b' bk by simp
      ultimately have "abstracts ?m s' ?h" by (simp add: abstracts_def)
      with l q dinv(1) show ?thesis by blast
    next
      case miss
      have "hm_delete key eq m h = Some (None, m1, h1)"
        using hr missn(1) miss(1) by (simp add: hm_delete_def)
      moreover have "hm_delete_ptr key eq m s = Some (None, m1, s1)"
        using pr missn(2) miss(2) by (simp add: hm_delete_ptr_def)
      ultimately show ?thesis using inv1 R1 by blast
    qed
  qed
qed

subsection \<open>Runs\<close>

lemma reachable_ptr_abstracts:
  "reachable_ptr L m s \<Longrightarrow> \<exists>h. reachable L m h \<and> abstracts m s h"
proof (induction rule: reachable_ptr.induct)
  case (start s)
  let ?h = "\<lparr>cells = (\<lambda>_. None), brk = brk_m s\<rparr>"
  have "heap_ok ?h" by (simp add: heap_ok_def)
  then have "reachable {#} HMap_empty ?h" by (rule reachable.start)
  moreover have "abstracts HMap_empty s ?h" by (rule abstracts_start) simp
  ultimately show ?case by blast
next
  case (insert L m s node m' s')
  then obtain h where re: "reachable L m h" and R: "abstracts m s h" by blast
  from reachable_inv [OF re] have inv: "hmap_inv m h" and L: "mset (all_nodes m h) = L"
    by simp_all
  from L have "set (all_nodes m h) = set_mset L" by (metis set_mset_mset)
  with insert.hyps(2) have "addr node \<notin> addr ` set (all_nodes m h)" by simp
  from HMap_insert_sim [OF inv this R] insert.hyps(3) obtain h' where
    "HMap_insert node m h = Some (m', h')" "abstracts m' s' h'"
    by auto
  with re insert.hyps(2) show ?case by (blast intro: reachable.insert)
next
  case (lookup L m s key eq r m' s')
  then obtain h where re: "reachable L m h" and R: "abstracts m s h" by blast
  from reachable_inv [OF re] have inv: "hmap_inv m h" by simp
  from HMap_lookup_sim [OF inv R, of key eq] lookup.hyps(2) obtain h' where
    "HMap_lookup key eq m h = Some (r, m', h')" "abstracts m' s' h'"
    by auto
  with re show ?case by (blast intro: reachable.lookup)
next
  case (delete_hit L m s key eq x m' s')
  then obtain h where re: "reachable L m h" and R: "abstracts m s h" by blast
  from reachable_inv [OF re] have inv: "hmap_inv m h" by simp
  from hm_delete_sim [OF inv R, of key eq] delete_hit.hyps(2) obtain h' where
    "hm_delete key eq m h = Some (Some x, m', h')" "abstracts m' s' h'"
    by auto
  with re show ?case by (blast intro: reachable.delete_hit)
next
  case (delete_miss L m s key eq m' s')
  then obtain h where re: "reachable L m h" and R: "abstracts m s h" by blast
  from reachable_inv [OF re] have inv: "hmap_inv m h" by simp
  from hm_delete_sim [OF inv R, of key eq] delete_miss.hyps(2) obtain h' where
    "hm_delete key eq m h = Some (None, m', h')" "abstracts m' s' h'"
    by auto
  with re show ?case by (blast intro: reachable.delete_miss)
qed


lemma mem_ok_empty: "mem_ok mem_empty"
  by (simp add: mem_ok_def mem_empty_def)

lemma insert_all_ptr_reachable:
  assumes "reachable_ptr L m s" "distinct (map addr ns)"
    "addr ` set ns \<inter> addr ` set_mset L = {}" "insert_all_ptr ns m s = Some (m', s')"
  shows "reachable_ptr (L + mset ns) m' s'"
  using assms
proof (induction ns arbitrary: L m s)
  case Nil
  then show ?case by simp
next
  case (Cons n ns)
  from Cons.prems(4) obtain m1 s1 where
    i: "HMap_insert_ptr n m s = Some (m1, s1)" and r: "insert_all_ptr ns m1 s1 = Some (m', s')"
    by (auto split: option.splits)
  from Cons.prems(3) have f: "addr n \<notin> addr ` set_mset L" by auto
  have r1: "reachable_ptr (add_mset n L) m1 s1"
    using Cons.prems(1) f i by (rule reachable_ptr.insert)
  have d: "distinct (map addr ns)" using Cons.prems(2) by simp
  have j: "addr ` set ns \<inter> addr ` set_mset (add_mset n L) = {}"
    using Cons.prems(2,3) by auto
  from Cons.IH [OF r1 d j r] show ?case by simp
qed

lemma scenario_A_ptr_256:
  "\<exists>m s. scenario_A_ptr 256 = Some (m, s) \<and> reachable_ptr (mset (map node_of [0..<256])) m s \<and>
         shape m = (False, 63, 128, False, 31, 128)"
proof -
  from scenario_A_256 obtain m h where
    a: "scenario_A 256 = Some (m, h)" and sh: "shape m = (False, 63, 128, False, 31, 128)"
    by blast
  have "map addr (map node_of [0..<256]) = [0..<256]"
    by (simp add: node_of_def comp_def map_idI)
  then have d: "distinct (map addr (map node_of [0..<256]))" by simp
  have R: "abstracts HMap_empty mem_empty heap_empty"
    by (rule abstracts_start) (simp add: mem_empty_def heap_empty_def)
  from insert_all_sim [OF reachable.start [OF heap_ok_empty] R d] obtain m' h' s' where
    l: "insert_all (map node_of [0..<256]) HMap_empty heap_empty = Some (m', h')"
    and p: "insert_all_ptr (map node_of [0..<256]) HMap_empty mem_empty = Some (m', s')"
    by auto
  from l a have e: "m' = m" by (simp add: scenario_A_def)
  from insert_all_ptr_reachable [OF reachable_ptr.start [OF mem_ok_empty] d _ p]
  have "reachable_ptr (mset (map node_of [0..<256])) m' s'" by simp
  with p e sh show ?thesis by (auto simp: scenario_A_ptr_def)
qed

text \<open>The traversal of the lists of a well-formed state.\<close>

lemma traversal_of_lists:
  assumes inv: "hmap_inv m h"
  shows "HMap_foreach (\<lambda>n c. (True, Suc c)) 0 m h = Some (HMap_size m)"
    and "HMap_foreach (\<lambda>n vs. (True, vs @ [n])) [] m h = Some (all_nodes m h)"
    and "length (all_nodes m h) = HMap_size m"
    and "distinct (map addr (all_nodes m h))"
proof -
  show "HMap_foreach (\<lambda>n c. (True, Suc c)) 0 m h = Some (HMap_size m)"
    by (simp add: HMap_foreach_ok [OF inv] visit_chain_count length_all_nodes [OF inv])
  show "HMap_foreach (\<lambda>n vs. (True, vs @ [n])) [] m h = Some (all_nodes m h)"
    by (simp add: HMap_foreach_ok [OF inv] visit_chain_collect)
  show "length (all_nodes m h) = HMap_size m" by (rule length_all_nodes [OF inv])
  show "distinct (map addr (all_nodes m h))" using inv by (simp add: hmap_inv_def)
qed

section \<open>A node inserted while it is linked\<close>

text \<open>\<open>insert\<close> of \<open>node_of 1\<close> twice, on \<open>HMap{}\<close>: the second call reads the node itself
  at the head of slot 1 and stores it in the node's \<open>next\<close>. The traversal of the state
  this leaves goes through slot 0, which is empty, and then stays in slot 1.\<close>

lemma rehash_loop_ptr_done: "size_f (older m) = 0 \<Longrightarrow> rehash_loop_ptr w m s = Some (m, s)"
  by (subst rehash_loop_ptr.simps) simp

lemma insert_twice_state: "insert_twice (node_of 1) = Some (twice_map, twice_mem)"
  by (simp add: insert_twice_def HMap_insert_ptr_def HMap_empty_def mem_empty_def HTab_empty_def
      HTab_init_ptr_def calloc_ptr_def HTab_insert_ptr_def get_position_def read_ptr_def
      write_ptr_def node_of_def kMaxLoadFactor_def help_rehashing_ptr_def rehash_loop_ptr_done
      twice_map_def twice_mem_def replicate_4)

lemma twice_slot_0: "read_ptr (newer twice_map) twice_mem 0 = Some None"
  by (simp add: read_ptr_def twice_map_def twice_mem_def)

lemma twice_slot_1: "read_ptr (newer twice_map) twice_mem 1 = Some (Some (node_of 1))"
  by (simp add: read_ptr_def twice_map_def twice_mem_def)

lemma twice_next: "nexts twice_mem (addr (node_of 1)) = Some (node_of 1)"
  by (simp add: twice_mem_def node_of_def)

lemma twice_foreach_never:
  assumes go: "\<And>x c. fst (f x c)"
  shows "HMap_foreach_ptr f arg twice_map twice_mem = None"
proof -
  have m: "mask_f (newer twice_map) = 3" by (simp add: twice_map_def)
  have "foreach_from_ptr f (newer twice_map) twice_mem 1 arg = None"
    by (subst foreach_from_ptr.simps)
       (simp del: One_nat_def add: m twice_slot_1 visit_links_cycle [where nx = "nexts twice_mem" and n = "node_of 1" and f = f, OF twice_next go])
  then have "foreach_from_ptr f (newer twice_map) twice_mem 0 arg = None"
    by (subst foreach_from_ptr.simps) (simp del: One_nat_def add: m twice_slot_0 visit_links_None One_nat_def [symmetric])
  then show ?thesis by (simp add: HMap_foreach_ptr_def HTab_foreach_ptr_def)
qed

lemma twice_foreach_stop:
  "HMap_foreach_ptr (\<lambda>x c. (c < k, Suc c)) 0 twice_map twice_mem = Some (Suc k)"
proof -
  have m: "mask_f (newer twice_map) = 3" by (simp add: twice_map_def)
  have "foreach_from_ptr (\<lambda>x c. (c < k, Suc c)) (newer twice_map) twice_mem 1 0 = Some (False, Suc k)"
    by (subst foreach_from_ptr.simps)
       (simp del: One_nat_def add: m twice_slot_1 visit_links_stop [where nx = "nexts twice_mem" and n = "node_of 1", OF twice_next])
  then have "foreach_from_ptr (\<lambda>x c. (c < k, Suc c)) (newer twice_map) twice_mem 0 0 = Some (False, Suc k)"
    by (subst foreach_from_ptr.simps) (simp del: One_nat_def add: m twice_slot_0 visit_links_None One_nat_def [symmetric])
  then show ?thesis by (simp add: HMap_foreach_ptr_def HTab_foreach_ptr_def)
qed

lemma twice_visited:
  "HMap_foreach_ptr (\<lambda>x vs. (length vs < 2, vs @ [x])) [] twice_map twice_mem =
     Some [node_of 1, node_of 1, node_of 1]"
  by code_simp

section \<open>The claims\<close>

subsection \<open>C1\<close>

text \<open>
  C1, as the code has it. The 32nd \<open>insert\<close> brings the newer table (capacity 4) to the
  threshold \<open>4 * 8\<close> and starts the cycle, and the migration step of that same call moves
  all 32 nodes (the quota is 128) and frees the older table. So after the 32nd and after
  the 33rd \<open>insert\<close> no cycle is active, the newer table has capacity 8, and \<open>size()\<close> is
  32 and 33. Five further lookups of keys that are not in the map find nothing and leave
  the map as it is: \<open>size() == 33\<close>, no cycle.
\<close>

theorem scenario_A_drained_at_once:
  "map_option fst (scenario_A 32) =
     Some \<lparr>newer = \<lparr>tab = Some 1, mask_f = 7, size_f = 32\<rparr>, older = HTab_empty, migrate_pos = 3\<rparr> \<and>
   map_option fst (scenario_A 33) =
     Some \<lparr>newer = \<lparr>tab = Some 1, mask_f = 7, size_f = 33\<rparr>, older = HTab_empty, migrate_pos = 3\<rparr> \<and>
   map_option (\<lambda>(rs, m, h). (rs, m, HMap_size m))
     (Option.bind (scenario_A 33)
        (\<lambda>(m, h). lookup_all (map node_of [33..<38]) same_addr m h)) =
     Some ([None, None, None, None, None],
           \<lparr>newer = \<lparr>tab = Some 1, mask_f = 7, size_f = 33\<rparr>, older = HTab_empty, migrate_pos = 3\<rparr>,
           33)"
  by code_simp

text \<open>C1 as stated fails: after the 33rd \<open>insert\<close> the older table is \<open>HTab{}\<close>, so no
  cycle is active.\<close>

theorem scenario_A_counterexample:
  "map_option (older \<circ> fst) (scenario_A 33) = Some \<lparr>tab = None, mask_f = 0, size_f = 0\<rparr>"
  by code_simp

subsection \<open>C2\<close>

text \<open>
  C2, as the code has it. In every well-formed state (every reachable state is one):
  \<^item> one turn of the migration loop at a non-empty slot detaches the head of the chain at
    the cursor and links it at the head of its chain in the newer table, charges one unit
    and leaves the cursor; at an empty slot it moves the cursor on by one and charges
    nothing; while the older table has nodes, the slot at the cursor can be read;
  \<^item> \<open>help_rehashing\<close> moves \<open>k \<le> 128\<close> nodes from the older to the newer table; when that
    leaves the older table without nodes (also when it had none on entry, a delete having
    taken the last one), its array is freed and it is \<open>HTab{}\<close> again, and otherwise the
    whole quota was spent and the array stays;
  \<^item> \<open>hm_delete\<close> runs that step first and frees nothing after it: the older table keeps
    the pointer and the array it has after the step, whatever its count becomes.
\<close>

theorem migration_step:
  assumes inv: "hmap_inv m h"
  shows "(\<forall>x rest. read_slot (older m) h (migrate_pos m) = Some (x # rest) \<longrightarrow>
            (\<exists>m' h' old. rehash_iter w m h = Some (w + 1, m', h') \<and>
               migrate_pos m' = migrate_pos m \<and>
               read_slot (older m') h' (migrate_pos m) = Some rest \<and>
               read_slot (newer m) h (get_position (newer m) (hcode x)) = Some old \<and>
               read_slot (newer m') h' (get_position (newer m) (hcode x)) = Some (x # old) \<and>
               size_f (older m') + 1 = size_f (older m) \<and>
               size_f (newer m') = size_f (newer m) + 1)) \<and>
         (read_slot (older m) h (migrate_pos m) = Some [] \<longrightarrow>
            rehash_iter w m h = Some (w, m\<lparr>migrate_pos := migrate_pos m + 1\<rparr>, h)) \<and>
         (0 < size_f (older m) \<longrightarrow> read_slot (older m) h (migrate_pos m) \<noteq> None) \<and>
         (\<exists>m' h' k. help_rehashing m h = Some (m', h') \<and> k \<le> kRehasingWork \<and>
            helped k m h m' h') \<and>
         (\<exists>r m' h' m1 h1. hm_delete key eq m h = Some (r, m', h') \<and>
            help_rehashing m h = Some (m1, h1) \<and>
            tab (older m') = tab (older m1) \<and> mask_f (older m') = mask_f (older m1) \<and>
            (tab (older m1) \<noteq> None \<longrightarrow> slots_of (older m') h' \<noteq> None))"
proof (intro conjI allI impI)
  fix x rest
  assume "read_slot (older m) h (migrate_pos m) = Some (x # rest)"
  from rehash_iter_head [OF inv this, of w] obtain m' h' old where
    s: "rehash_iter w m h = Some (w + 1, m', h')" "moves 1 m h m' h'"
    "migrate_pos m' = migrate_pos m" "read_slot (older m') h' (migrate_pos m) = Some rest"
    "read_slot (newer m) h (get_position (newer m) (hcode x)) = Some old"
    "read_slot (newer m') h' (get_position (newer m) (hcode x)) = Some (x # old)"
    by blast
  from s(2) have "size_f (older m') + 1 = size_f (older m)" "size_f (newer m') = size_f (newer m) + 1"
    unfolding moves_def by blast+
  with s show "\<exists>m' h' old. rehash_iter w m h = Some (w + 1, m', h') \<and>
               migrate_pos m' = migrate_pos m \<and>
               read_slot (older m') h' (migrate_pos m) = Some rest \<and>
               read_slot (newer m) h (get_position (newer m) (hcode x)) = Some old \<and>
               read_slot (newer m') h' (get_position (newer m) (hcode x)) = Some (x # old) \<and>
               size_f (older m') + 1 = size_f (older m) \<and>
               size_f (newer m') = size_f (newer m) + 1"
    by blast
next
  assume "read_slot (older m) h (migrate_pos m) = Some []"
  then show "rehash_iter w m h = Some (w, m\<lparr>migrate_pos := migrate_pos m + 1\<rparr>, h)"
    by (rule rehash_iter_empty)
next
  assume sz: "0 < size_f (older m)"
  show "read_slot (older m) h (migrate_pos m) \<noteq> None"
  proof (rule live_older [OF inv sz])
    fix b sb
    assume "tab (older m) = Some b" "cells h b = Some sb" "migrate_pos m < length sb"
    then show ?thesis by (simp add: read_slot_def slots_of_def)
  qed
next
  from help_rehashing_inv [OF inv]
  show "\<exists>m' h' k. help_rehashing m h = Some (m', h') \<and> k \<le> kRehasingWork \<and> helped k m h m' h'"
    by blast
next
  from hm_delete_inv [OF inv, of key eq] obtain r m' h' m1 h1 where
    d: "hm_delete key eq m h = Some (r, m', h')" "help_rehashing m h = Some (m1, h1)"
    "hmap_inv m' h'" "tab (older m') = tab (older m1)" "mask_f (older m') = mask_f (older m1)"
    by blast
  from d(3) have "tab_ok (older m') h'" by (simp add: hmap_inv_def)
  then have "tab (older m') \<noteq> None \<longrightarrow> slots_of (older m') h' \<noteq> None"
    by (auto simp: tab_ok_def slots_of_def split: option.splits)
  with d show "\<exists>r m' h' m1 h1. hm_delete key eq m h = Some (r, m', h') \<and>
            help_rehashing m h = Some (m1, h1) \<and>
            tab (older m') = tab (older m1) \<and> mask_f (older m') = mask_f (older m1) \<and>
            (tab (older m1) \<noteq> None \<longrightarrow> slots_of (older m') h' \<noteq> None)"
    by auto
qed

theorem migration_step_witness:
  "\<exists>m h m' h' k. scenario_A 256 = Some (m, h) \<and> hmap_inv m h \<and> size_f (older m) = 128 \<and>
     read_slot (older m) h (migrate_pos m) \<noteq> None \<and>
     help_rehashing m h = Some (m', h') \<and> k \<le> kRehasingWork \<and> helped k m h m' h' \<and>
     older m' = HTab_empty"
proof -
  from scenario_A_256 obtain m h where
    s: "scenario_A 256 = Some (m, h)" and re: "reachable (mset (map node_of [0..<256])) m h"
    and sh: "shape m = (False, 63, 128, False, 31, 128)"
    by blast
  from sh have o: "size_f (older m) = 128" by (simp add: shape_def)
  from reachable_inv [OF re] have inv: "hmap_inv m h" by simp
  from migration_step [OF inv, of 0 "node_of 0" same_addr] o
  have r: "read_slot (older m) h (migrate_pos m) \<noteq> None" by simp
  from migration_step [OF inv, of 0 "node_of 0" same_addr] obtain m' h' k where
    hp: "help_rehashing m h = Some (m', h')" "k \<le> kRehasingWork" "helped k m h m' h'"
    by (elim conjE exE) (rule that)
  from helped_count [OF hp(3,2)] o have "k = size_f (older m)" by (simp add: kRehasingWork_def)
  with hp(3) have "older m' = HTab_empty" unfolding helped_def by simp
  with s inv o r hp show ?thesis by blast
qed

text \<open>C2 as stated fails where a delete takes the last node of the older table: in the
  well-formed state \<open>mid_map 129\<close>, \<open>hm_delete\<close> of the last node of the chain first
  migrates the 128 nodes before it, then detaches the node from the older table. The older
  table is left with count 0, its pointer and its array: nothing is freed, and the table
  is not \<open>HTab{}\<close>. Runs from \<open>HMap{}\<close> reach such a state too, the first of them after
  32768 inserts, 126 lookups and 128 deletes.\<close>

theorem delete_empties_older_counterexample:
  "hmap_inv (mid_map 129) (mid_heap 129) \<and>
   map_option (\<lambda>(r, m', h'). (r, size_f (older m'), tab (older m'), cells h' 0 = None))
     (hm_delete (late_node 128) same_addr (mid_map 129) (mid_heap 129)) =
   Some (Some (late_node 128), 0, Some 0, False) \<and>
   (\<exists>L m h. reachable L m h \<and> size_f (older m) = 0 \<and> tab (older m) \<noteq> None \<and>
      slots_of (older m) h \<noteq> None)"
proof -
  from delete_last_of_older obtain m' h' where
    "hm_delete (late_node 128) same_addr (mid_map 129) (mid_heap 129)
       = Some (Some (late_node 128), m', h')"
    "size_f (older m') = 0" "tab (older m') = Some 0" "cells h' 0 \<noteq> None"
    by blast
  then show ?thesis using mid_inv [of 129] reachable_emptied_not_freed by simp
qed

subsection \<open>C3\<close>



subsection \<open>C4\<close>

text \<open>
  C4. Whenever \<open>trigger_rehashing\<close> starts a cycle, the capacity (\<open>mask + 1\<close>) of the new
  newer table is twice the capacity of the table it replaces, that table is the older
  table from then on, and the cursor is 0.
\<close>

theorem trigger_doubles_capacity:
  assumes "trigger_rehashing m h = Some (m', h')"
  shows "mask_f (newer m') + 1 = 2 * (mask_f (newer m) + 1) \<and> older m' = newer m \<and>
         migrate_pos m' = 0 \<and> size_f (newer m') = 0 \<and> tab (newer m') \<noteq> None"
  using assms
  by (auto simp: trigger_rehashing_def HTab_init_def calloc_def Let_def bind_eq_Some_conv
      split: if_splits)

theorem trigger_doubles_capacity_witness:
  "mask_f (newer one_map) + 1 = 4 \<and>
   (case trigger_rehashing one_map one_heap of
      None \<Rightarrow> False
    | Some (m', h') \<Rightarrow> mask_f (newer m') + 1 = 8 \<and> older m' = newer one_map \<and> migrate_pos m' = 0)"
proof -
  have "trigger_rehashing one_map one_heap \<noteq> None"
    by (simp add: trigger_rehashing_def one_map_def one_heap_def HTab_empty_def HTab_init_def
        calloc_def Let_def)
  then obtain m' h' where t: "trigger_rehashing one_map one_heap = Some (m', h')" by auto
  from trigger_doubles_capacity [OF t] t show ?thesis by (simp add: one_map_def)
qed

subsection \<open>C5\<close>

text \<open>
  C5, on the links in memory. In every state reached from \<open>HMap{}\<close> by \<open>insert\<close>,
  \<open>lookup\<close> and \<open>hm_delete\<close> in which every \<open>insert\<close> was of a node that was not linked
  in the map at that moment, \<open>size()\<close> is the sum of the two tables' counts, and it is
  the number of calls of the visitor in a \<open>foreach\<close> that the visitor does not stop: the
  traversal ends, and it visits the nodes inserted and not deleted since, each once,
  no two at the same address.
\<close>

theorem size_counts_traversal:
  assumes re: "reachable_ptr L m s"
  shows "HMap_size m = size_f (newer m) + size_f (older m) \<and>
         HMap_foreach_ptr (\<lambda>n c. (True, Suc c)) 0 m s = Some (HMap_size m) \<and>
         (\<exists>vs. HMap_foreach_ptr (\<lambda>n vs. (True, vs @ [n])) [] m s = Some vs \<and>
               length vs = HMap_size m \<and> distinct (map addr vs) \<and> mset vs = L)"
proof -
  from reachable_ptr_abstracts [OF re] obtain h where
    rl: "reachable L m h" and R: "abstracts m s h" by blast
  from reachable_inv [OF rl] have inv: "hmap_inv m h" and L: "mset (all_nodes m h) = L"
    by simp_all
  note t = traversal_of_lists [OF inv]
  have c: "HMap_foreach_ptr (\<lambda>n c. (True, Suc c)) 0 m s = Some (HMap_size m)"
    by (simp only: HMap_foreach_sim [OF inv R] t(1))
  have v: "HMap_foreach_ptr (\<lambda>n vs. (True, vs @ [n])) [] m s = Some (all_nodes m h)"
    by (simp only: HMap_foreach_sim [OF inv R] t(2))
  have "\<exists>vs. HMap_foreach_ptr (\<lambda>n vs. (True, vs @ [n])) [] m s = Some vs \<and>
               length vs = HMap_size m \<and> distinct (map addr vs) \<and> mset vs = L"
    by (rule exI [of _ "all_nodes m h"]) (intro conjI v t(3) t(4) L)
  with c show ?thesis by (simp add: HMap_size_def)
qed

text \<open>The state after the 256 inserts of scenario A, a cycle in progress with 128 nodes
  in each table: \<open>size()\<close> is 256, and the traversal calls the visitor 256 times, on the
  256 nodes inserted, no two at the same address.\<close>

theorem size_counts_traversal_witness:
  "\<exists>m s vs. scenario_A_ptr 256 = Some (m, s) \<and>
     reachable_ptr (mset (map node_of [0..<256])) m s \<and>
     size_f (newer m) = 128 \<and> size_f (older m) = 128 \<and> HMap_size m = 256 \<and>
     HMap_foreach_ptr (\<lambda>n c. (True, Suc c)) 0 m s = Some 256 \<and>
     HMap_foreach_ptr (\<lambda>n vs. (True, vs @ [n])) [] m s = Some vs \<and>
     length vs = 256 \<and> distinct (map addr vs) \<and> mset vs = mset (map node_of [0..<256])"
proof -
  from scenario_A_ptr_256 obtain m s where
    a: "scenario_A_ptr 256 = Some (m, s)"
    and re: "reachable_ptr (mset (map node_of [0..<256])) m s"
    and sh: "shape m = (False, 63, 128, False, 31, 128)"
    by blast
  from sh have o: "size_f (newer m) = 128" "size_f (older m) = 128"
    by (simp_all add: shape_def)
  then have z: "HMap_size m = 256" by (simp add: HMap_size_def)
  note t = size_counts_traversal [OF re]
  from t have c: "HMap_foreach_ptr (\<lambda>n c. (True, Suc c)) 0 m s = Some (HMap_size m)"
    by (elim conjE)
  from t obtain vs where
    v: "HMap_foreach_ptr (\<lambda>n vs. (True, vs @ [n])) [] m s = Some vs"
    and l: "length vs = HMap_size m" and d: "distinct (map addr vs)"
    and e: "mset vs = mset (map node_of [0..<256])"
    by (elim conjE exE) (rule that)
  from c z have c': "HMap_foreach_ptr (\<lambda>n c. (True, Suc c)) 0 m s = Some 256" by simp
  from l z have l': "length vs = 256" by simp
  show ?thesis
    by (rule exI [of _ m], rule exI [of _ s], rule exI [of _ vs])
       (intro conjI a re o z c' v l' d e)
qed

text \<open>
  Without the condition on the inserted node the property does not hold. \<open>insert\<close> of
  one record twice, on \<open>HMap{}\<close>, leaves the node at the head of its slot and its own
  successor, with \<open>size() == 2\<close> for the one node in the map. The inner loop of \<open>foreach\<close>
  from that slot does not end with a visitor that never stops it, and neither does
  \<open>foreach\<close>; a visitor that stops at its call number \<open>k + 1\<close> is called \<open>k + 1\<close> times,
  whatever \<open>k\<close>, each time on that node: the first three calls are on the same node.
\<close>

theorem insert_linked_node_counterexample:
  "insert_twice (node_of 1) = Some (twice_map, twice_mem) \<and>
   HMap_size twice_map = 2 \<and>
   read_ptr (newer twice_map) twice_mem 1 = Some (Some (node_of 1)) \<and>
   nexts twice_mem (addr (node_of 1)) = Some (node_of 1) \<and>
   visit_links (\<lambda>n c. (True, Suc c)) (nexts twice_mem) (Some (node_of 1)) 0 = None \<and>
   HMap_foreach_ptr (\<lambda>n c. (True, Suc c)) 0 twice_map twice_mem = None \<and>
   (\<forall>k. HMap_foreach_ptr (\<lambda>n c. (c < k, Suc c)) 0 twice_map twice_mem = Some (Suc k)) \<and>
   HMap_foreach_ptr (\<lambda>n vs. (length vs < 2, vs @ [n])) [] twice_map twice_mem =
     Some [node_of 1, node_of 1, node_of 1]"
proof -
  have z: "HMap_size twice_map = 2"
    by (simp add: HMap_size_def twice_map_def HTab_empty_def)
  have n: "visit_links (\<lambda>n c. (True, Suc c)) (nexts twice_mem) (Some (node_of 1)) 0 = None"
    by (rule visit_links_cycle [where nx = "nexts twice_mem" and n = "node_of 1", OF twice_next])
       simp
  have f: "HMap_foreach_ptr (\<lambda>n c. (True, Suc c)) 0 twice_map twice_mem = None"
    by (rule twice_foreach_never) simp
  have k: "\<forall>k. HMap_foreach_ptr (\<lambda>n c. (c < k, Suc c)) 0 twice_map twice_mem = Some (Suc k)"
    by (simp add: twice_foreach_stop)
  show ?thesis
    by (intro conjI insert_twice_state z twice_slot_1 twice_next n f k twice_visited)
qed

subsection \<open>C6\<close>

text \<open>
  C6. In every reachable state, an older table that is not null stands beside a newer
  table that is not null, in another array. \<open>insert\<close> replaces the newer table, by one of
  twice its capacity, exactly when the older table is null and the count of the newer
  table, with the node just linked, is at least the capacity times the load factor;
  in every other case, so whenever a cycle is in progress, the newer table keeps its
  array and its mask. \<open>lookup\<close> and \<open>hm_delete\<close> never replace the newer table.
\<close>

theorem one_cycle_at_a_time:
  assumes re: "reachable L m h"
  shows "(tab (older m) \<noteq> None \<longrightarrow> tab (newer m) \<noteq> None \<and> tab (newer m) \<noteq> tab (older m)) \<and>
         (\<forall>node m' h'. addr node \<notin> addr ` set_mset L \<and> HMap_insert node m h = Some (m', h') \<longrightarrow>
            (if tab (older m) = None \<and> tab (newer m) \<noteq> None \<and>
                (mask_f (newer m) + 1) * kMaxLoadFactor \<le> size_f (newer m) + 1
             then tab (newer m') \<noteq> tab (newer m) \<and>
                  mask_f (newer m') + 1 = 2 * (mask_f (newer m) + 1)
             else tab (newer m) \<noteq> None \<longrightarrow>
                  tab (newer m') = tab (newer m) \<and> mask_f (newer m') = mask_f (newer m))) \<and>
         (\<forall>key eq r m' h'. HMap_lookup key eq m h = Some (r, m', h') \<longrightarrow>
            tab (newer m') = tab (newer m) \<and> mask_f (newer m') = mask_f (newer m)) \<and>
         (\<forall>key eq r m' h'. hm_delete key eq m h = Some (r, m', h') \<longrightarrow>
            tab (newer m') = tab (newer m) \<and> mask_f (newer m') = mask_f (newer m))"
proof (intro conjI allI impI)
  from reachable_inv [OF re] have inv: "hmap_inv m h" and L: "mset (all_nodes m h) = L"
    by simp_all
  {
    assume "tab (older m) \<noteq> None"
    with inv show "tab (newer m) \<noteq> None" "tab (newer m) \<noteq> tab (older m)"
      by (simp_all add: hmap_inv_def)
  }
  {
    fix node m' h'
    assume a: "addr node \<notin> addr ` set_mset L \<and> HMap_insert node m h = Some (m', h')"
    from L have "set (all_nodes m h) = set_mset L" by (metis set_mset_mset)
    with a have fresh: "addr node \<notin> addr ` set (all_nodes m h)" by simp
    from HMap_insert_stages [OF inv fresh] obtain m3 h3 where
      s: "HMap_insert node m h = help_rehashing m3 h3" and inv3: "hmap_inv m3 h3"
      and c: "if tab (older m) = None \<and> tab (newer m) \<noteq> None \<and>
               (mask_f (newer m) + 1) * kMaxLoadFactor \<le> size_f (newer m) + 1
            then tab (older m3) = tab (newer m) \<and> mask_f (older m3) = mask_f (newer m) \<and>
                 size_f (older m3) = size_f (newer m) + 1 \<and>
                 tab (newer m3) = Some (brk h) \<and> size_f (newer m3) = 0 \<and>
                 Suc (mask_f (newer m3)) = 2 * Suc (mask_f (newer m)) \<and> migrate_pos m3 = 0
            else older m3 = older m \<and> migrate_pos m3 = migrate_pos m \<and>
                 size_f (newer m3) = size_f (newer m) + 1 \<and>
                 tab (newer m3) = (if tab (newer m) = None then Some (brk h) else tab (newer m)) \<and>
                 mask_f (newer m3) = (if tab (newer m) = None then 3 else mask_f (newer m))"
      by (elim exE conjE) (rule that)
    from help_rehashing_inv [OF inv3] obtain m'' h'' k where
      h: "help_rehashing m3 h3 = Some (m'', h'')" "helped k m3 h3 m'' h''"
      by blast
    with s a have "m'' = m'" by simp
    with helped_newer [OF h(2)] have n: "tab (newer m') = tab (newer m3)"
      "mask_f (newer m') = mask_f (newer m3)" by simp_all
    show "if tab (older m) = None \<and> tab (newer m) \<noteq> None \<and>
                (mask_f (newer m) + 1) * kMaxLoadFactor \<le> size_f (newer m) + 1
             then tab (newer m') \<noteq> tab (newer m) \<and>
                  mask_f (newer m') + 1 = 2 * (mask_f (newer m) + 1)
             else tab (newer m) \<noteq> None \<longrightarrow>
                  tab (newer m') = tab (newer m) \<and> mask_f (newer m') = mask_f (newer m)"
    proof (cases "tab (older m) = None \<and> tab (newer m) \<noteq> None \<and>
                (mask_f (newer m) + 1) * kMaxLoadFactor \<le> size_f (newer m) + 1")
      case True
      with c have d: "tab (newer m3) = Some (brk h)"
        "Suc (mask_f (newer m3)) = 2 * Suc (mask_f (newer m))" by simp_all
      from True obtain a where a: "tab (newer m) = Some a" by auto
      with inv obtain sl where "cells h a = Some sl" by (auto simp: hmap_inv_def tab_ok_Some)
      moreover from inv have "heap_ok h" by (simp add: hmap_inv_def)
      ultimately have "a < brk h" by (simp add: live_below_brk)
      with a d n True show ?thesis by simp
    next
      case False
      with c n show ?thesis by auto
    qed
  }
  {
    fix key eq r m' h'
    assume lk: "HMap_lookup key eq m h = Some (r, m', h')"
    from HMap_lookup_inv [OF inv, of key eq] lk obtain k where "helped k m h m' h'" by auto
    from helped_newer [OF this]
    show "tab (newer m') = tab (newer m)" "mask_f (newer m') = mask_f (newer m)" by simp_all
  }
  {
    fix key eq r m' h'
    assume d: "hm_delete key eq m h = Some (r, m', h')"
    from hm_delete_inv [OF inv, of key eq] d obtain m1 h1 k where
      "helped k m h m1 h1" "tab (newer m') = tab (newer m1)" "mask_f (newer m') = mask_f (newer m1)"
      by auto
    with helped_newer [of k m h m1 h1]
    show "tab (newer m') = tab (newer m)" "mask_f (newer m') = mask_f (newer m)" by simp_all
  }
qed

theorem one_cycle_at_a_time_witness:
  "\<exists>m h m' h'. scenario_A 256 = Some (m, h) \<and>
     reachable (mset (map node_of [0..<256])) m h \<and>
     tab (older m) \<noteq> None \<and> 0 < size_f (older m) \<and> mask_f (newer m) = 63 \<and>
     HMap_insert (node_of 256) m h = Some (m', h') \<and>
     tab (newer m') = tab (newer m) \<and> mask_f (newer m') = 63"
proof -
  from scenario_A_256 obtain m h where
    s: "scenario_A 256 = Some (m, h)" and re: "reachable (mset (map node_of [0..<256])) m h"
    and sh: "shape m = (False, 63, 128, False, 31, 128)"
    by blast
  from sh have o: "tab (older m) \<noteq> None" "size_f (older m) = 128" "mask_f (newer m) = 63"
    "tab (newer m) \<noteq> None"
    by (simp_all add: shape_def)
  from reachable_inv [OF re] have inv: "hmap_inv m h"
    and L: "mset (all_nodes m h) = mset (map node_of [0..<256])" by simp_all
  have fr: "addr (node_of 256) \<notin> addr ` set_mset (mset (map node_of [0..<256]))"
    by (auto simp: node_of_def)
  from L have "set (all_nodes m h) = set_mset (mset (map node_of [0..<256]))"
    by (metis set_mset_mset)
  with fr have "addr (node_of 256) \<notin> addr ` set (all_nodes m h)" by simp
  from HMap_insert_inv [OF inv this] obtain m' h' where
    i: "HMap_insert (node_of 256) m h = Some (m', h')" by blast
  from one_cycle_at_a_time [OF re] fr i
  have "if tab (older m) = None \<and> tab (newer m) \<noteq> None \<and>
                (mask_f (newer m) + 1) * kMaxLoadFactor \<le> size_f (newer m) + 1
             then tab (newer m') \<noteq> tab (newer m) \<and>
                  mask_f (newer m') + 1 = 2 * (mask_f (newer m) + 1)
             else tab (newer m) \<noteq> None \<longrightarrow>
                  tab (newer m') = tab (newer m) \<and> mask_f (newer m') = mask_f (newer m)"
    by blast
  with o have "tab (newer m') = tab (newer m)" "mask_f (newer m') = 63" by simp_all
  with s re o i show ?thesis by auto
qed

subsection \<open>C7\<close>



subsection \<open>C8\<close>

text \<open>
  C8, where the code departs from it. \<open>init(1)\<close> passes the assertion of \<open>init\<close> and makes
  a table of one slot, with \<open>mask == 0\<close>. \<open>insert\<close> of nodes 1 and 2 links both in slot 0,
  node 2 at the head, \<open>size\<close> is 2, and \<open>lookup\<close> finds node 1 behind node 2. But \<open>foreach\<close>
  tests \<open>mask != 0\<close> where \<open>lookup\<close> tests the pointer: it returns \<open>true\<close> and has visited
  no node.
\<close>

theorem foreach_skips_capacity_one:
  "map_option
     (\<lambda>(t, h). (mask_f t, size_f t, nodes_of t h,
                 HTab_lookup (node_of 1) same_addr t h,
                 HTab_foreach (\<lambda>x vs. (True, vs @ [x])) [] t h))
     (scenario_B 1 (node_of 1) (node_of 2)) =
   Some (0, 2, [node_of 2, node_of 1], Some (Some (Link 0 1)), Some (True, []))"
  by code_simp

subsection \<open>C9\<close>



subsection \<open>C10\<close>

text \<open>
  C10. \<open>clear()\<close> frees the slot arrays of both tables and changes nothing else: the
  map comes back as it was, with both tables' counts, masks and (now dangling) pointers,
  so \<open>size()\<close> still is the total from before the call; the two arrays are no longer
  allocated, and every other array is as before. On every reachable state the call is
  defined.
\<close>

theorem clear_frees_only:
  "(reachable L m h \<longrightarrow> HMap_clear m h \<noteq> None) \<and>
   (HMap_clear m h = Some (m', h') \<longrightarrow>
      m' = m \<and> HMap_size m' = HMap_size m \<and> brk h' = brk h \<and>
      (\<forall>a. tab (newer m) = Some a \<or> tab (older m) = Some a \<longrightarrow> cells h' a = None) \<and>
      (\<forall>a. tab (newer m) \<noteq> Some a \<and> tab (older m) \<noteq> Some a \<longrightarrow> cells h' a = cells h a))"
proof (intro conjI impI)
  assume "reachable L m h"
  then have inv: "hmap_inv m h" by (simp add: reachable_inv)
  then have ok: "tab_ok (newer m) h" "tab_ok (older m) h"
    and ne: "tab (older m) \<noteq> None \<longrightarrow> tab (newer m) \<noteq> tab (older m)"
    by (simp_all add: hmap_inv_def)
  show "HMap_clear m h \<noteq> None"
    using ok ne
    by (auto simp: HMap_clear_def free_def tab_ok_def bind_eq_None_conv split: option.splits)
next
  assume c: "HMap_clear m h = Some (m', h')"
  then obtain h1 where f: "free (tab (newer m)) h = Some h1" "free (tab (older m)) h1 = Some h'"
    and m': "m' = m"
    by (auto simp: HMap_clear_def bind_eq_Some_conv)
  show "m' = m" by (rule m')
  show "HMap_size m' = HMap_size m" by (simp add: m')
  show "brk h' = brk h"
    using f by (auto simp: free_def split: option.splits)
  show "\<forall>a. tab (newer m) = Some a \<or> tab (older m) = Some a \<longrightarrow> cells h' a = None"
    using f by (auto simp: free_def split: option.splits)
  show "\<forall>a. tab (newer m) \<noteq> Some a \<and> tab (older m) \<noteq> Some a \<longrightarrow> cells h' a = cells h a"
    using f by (auto simp: free_def split: option.splits)
qed

theorem clear_frees_only_witness:
  "reachable {#node_of 1#} one_map one_heap \<and> HMap_size one_map = 1 \<and>
   (case HMap_clear one_map one_heap of
      None \<Rightarrow> False
    | Some (m', h') \<Rightarrow> m' = one_map \<and> HMap_size m' = 1 \<and> cells h' 0 = None)"
proof -
  have s: "HMap_size one_map = 1" by (simp add: HMap_size_def one_map_def HTab_empty_def)
  have t: "tab (newer one_map) = Some 0" by (simp add: one_map_def)
  from clear_frees_only [of "{#node_of 1#}" one_map one_heap one_map one_heap] reachable_one
  have "HMap_clear one_map one_heap \<noteq> None" by blast
  then obtain m' h' where c: "HMap_clear one_map one_heap = Some (m', h')" by auto
  from clear_frees_only [of "{#node_of 1#}" one_map one_heap m' h'] c t
  have "m' = one_map" "cells h' 0 = None" by auto
  with c s reachable_one show ?thesis by simp
qed

end
